theory Spec2Isabelle
  imports Complex_Main "HOL-Library.Signed_Division"
begin

section \<open>Exceptions and machine integers\<close>

text \<open>
  The header throws \<^verbatim>\<open>std::invalid_argument\<close> and \<^verbatim>\<open>std::runtime_error\<close>; the
  library calls it makes throw \<^verbatim>\<open>std::out_of_range\<close> (\<^verbatim>\<open>std::stoll\<close>,
  \<^verbatim>\<open>unordered_map::at\<close>). \<^verbatim>\<open>std::domain_error\<close> is the fourth class of
  \<^verbatim>\<open>&lt;stdexcept&gt;\<close> that matters here; no line of the header throws it.
  \<open>Undefined_behaviour\<close> is not an exception: it marks an operation the C++ standard
  leaves undefined (integer division by zero, the overflowing quotient, a write before the
  start of a string), which no \<^verbatim>\<open>catch\<close> sees.
\<close>

datatype error =
    Invalid_argument
  | Runtime_error
  | Out_of_range
  | Domain_error
  | Undefined_behaviour

text \<open>
  \<^verbatim>\<open>long long\<close> and \<^verbatim>\<open>short\<close> values are integers; where a result can leave the
  type, the wrap-around of two's complement is written out. C++ \<^verbatim>\<open>/\<close> and \<^verbatim>\<open>%\<close>
  truncate towards zero: they are \<open>sdiv\<close> and \<open>smod\<close>.
\<close>

definition wrap_short :: "int \<Rightarrow> int" where
  "wrap_short x = (x + 32768) mod 65536 - 32768"

definition wrap_ll :: "int \<Rightarrow> int" where
  "wrap_ll x = (x + 2 ^ 63) mod 2 ^ 64 - 2 ^ 63"

definition LLONG_MIN :: int where
  "LLONG_MIN = - (2 ^ 63)"

definition LLONG_MAX :: int where
  "LLONG_MAX = 2 ^ 63 - 1"

section \<open>Calendar helpers of \<^verbatim>\<open>DateTime\<close>\<close>

datatype DOTW = Sunday | Monday | Tuesday | Wednesday | Thursday | Friday | Saturday

text \<open>
  \<^verbatim>\<open>static_cast&lt;DOTW&gt;\<close> of an \<^verbatim>\<open>int\<close>. The only cast in the header is applied to
  \<^verbatim>\<open>(h - 1 + 7) % 7\<close>, which lies in 0..6 (lemma \<open>dotw_index_range\<close>).
\<close>

definition DOTW_of_int :: "int \<Rightarrow> DOTW" where
  "DOTW_of_int k =
     (if k = 0 then Sunday else if k = 1 then Monday else if k = 2 then Tuesday
      else if k = 3 then Wednesday else if k = 4 then Thursday else if k = 5 then Friday
      else Saturday)"

definition isLeapYear :: "int \<Rightarrow> bool" where
  "isLeapYear year \<longleftrightarrow>
     (year smod 4 = 0) \<and> ((year smod 100 \<noteq> 0) \<or> (year smod 400 = 0))"

definition days_table :: "int list" where
  "days_table = [31, 28, 31, 30, 31, 30, 31, 31, 30, 31, 30, 31]"

definition daysInMonth :: "int \<Rightarrow> int \<Rightarrow> error + int" where
  "daysInMonth year month =
     (if month < 0 \<or> month > 11 then Inl Invalid_argument
      else Inr (if month = 1 \<and> isLeapYear year then 29 else days_table ! nat month))"

definition dotwByDate :: "int \<Rightarrow> int \<Rightarrow> int \<Rightarrow> error + DOTW" where
  "dotwByDate year month day =
     (if month < 1 \<or> month > 12 then Inl Invalid_argument
      else case daysInMonth year (month - 1) of
        Inl e \<Rightarrow> Inl e
      | Inr max_day \<Rightarrow>
          if day < 1 \<or> day > max_day then Inl Invalid_argument
          else
            let m = (if month < 3 then month + 12 else month);
                y = (if month < 3 then year - 1 else year);
                q = day;
                K = y smod 100;
                J = y sdiv 100;
                h = (q + (13 * (m + 1)) sdiv 5 + K + K sdiv 4 + J sdiv 4 + 5 * J) smod 7
            in Inr (DOTW_of_int ((h - 1 + 7) smod 7)))"

section \<open>\<^verbatim>\<open>DateTime::parseUnix\<close>\<close>

text \<open>
  \<^verbatim>\<open>timezone_offset_t\<close> is \<^verbatim>\<open>double\<close>. The model takes the offset as the rational
  number the double stands for; negative zero is then 0, and infinities and NaN are not
  offsets of the model.

  Line 253 multiplies the offset by 3600 in \<^verbatim>\<open>double\<close>: the exact product is rounded to
  the nearest double (53 significant bits, ties to even; below \<open>pow2 (- 1022)\<close> the
  doubles lie \<open>pow2 (- 1074)\<close> apart). \<^verbatim>\<open>static_cast&lt;long long&gt;\<close> then truncates
  towards zero. For a
  product outside \<^verbatim>\<open>long long\<close> the cast is undefined in C++; the model gives it the
  value the x86-64 conversion instruction returns, \<^verbatim>\<open>LLONG_MIN\<close>. The theorems on the
  conversion hold for every value of the adjusted epoch, so none depends on that choice.
\<close>

text \<open>The number of binary digits of a positive integer.\<close>

function bit_length :: "int \<Rightarrow> nat" where
  "bit_length n = (if n \<le> 0 then 0 else Suc (bit_length (n div 2)))"
  by pat_completeness auto
termination
  by (relation "measure nat") auto

declare bit_length.simps [simp del]

definition pow2 :: "int \<Rightarrow> rat" where
  "pow2 e = (if 0 \<le> e then 2 ^ nat e else 1 / 2 ^ nat (- e))"

text \<open>For a positive \<open>r\<close>, the exponent \<open>e\<close> with \<open>pow2 e \<le> r < pow2 (e + 1)\<close>.\<close>

definition floor_log2 :: "rat \<Rightarrow> int" where
  "floor_log2 r =
     (let (p, q) = quotient_of r;
          e = int (bit_length p) - int (bit_length q)
      in if pow2 e \<le> r then e else e - 1)"

definition round_half_even :: "rat \<Rightarrow> int" where
  "round_half_even r =
     (let f = \<lfloor>r\<rfloor>; d = r - of_int f
      in if d < 1 / 2 then f else if 1 / 2 < d then f + 1 else if even f then f else f + 1)"

text \<open>The double nearest to a rational number (the result of an operation in \<^verbatim>\<open>double\<close>).\<close>

definition round_double :: "rat \<Rightarrow> rat" where
  "round_double r =
     (if r = 0 then 0
      else
        let e = max (floor_log2 \<bar>r\<bar>) (- 1022);
            ulp = pow2 (e - 52)
        in sgn r * of_int (round_half_even (\<bar>r\<bar> / ulp)) * ulp)"

definition trunc_rat :: "rat \<Rightarrow> int" where
  "trunc_rat x = (if 0 \<le> x then \<lfloor>x\<rfloor> else \<lceil>x\<rceil>)"

definition timezoneSeconds_of :: "rat \<Rightarrow> int" where
  "timezoneSeconds_of timezoneOffset =
     (let t = trunc_rat (round_double (timezoneOffset * 3600))
      in if LLONG_MIN \<le> t \<and> t \<le> LLONG_MAX then t else LLONG_MIN)"

text \<open>Lines 255--261: the split of the adjusted epoch into days and seconds of the day.\<close>

definition split_days :: "int \<Rightarrow> int \<times> int" where
  "split_days adjustedUnix =
     (let ds = adjustedUnix sdiv 86400;
          remainderSeconds = adjustedUnix smod 86400
      in if remainderSeconds < 0 then (ds - 1, remainderSeconds + 86400)
         else (ds, remainderSeconds))"

text \<open>The local \<^verbatim>\<open>unsigned short daysInYear\<close> of both year loops.\<close>

definition daysInYear :: "int \<Rightarrow> int" where
  "daysInYear year = (if isLeapYear year then 366 else 365)"

text \<open>
  Lines 265--271, the loop for a day count that is not negative. \<^verbatim>\<open>++year\<close> on a
  \<^verbatim>\<open>short\<close> wraps from 32767 to -32768.
\<close>

function year_forward :: "int \<Rightarrow> int \<Rightarrow> int \<times> int" where
  "year_forward year ds =
     (if ds \<ge> daysInYear year
      then year_forward (wrap_short (year + 1)) (ds - daysInYear year)
      else (year, ds))"
  by pat_completeness auto
termination
  by (relation "measure (\<lambda>(year, ds). nat ds)") (auto simp: daysInYear_def split: if_splits)

text \<open>Lines 273--278, the loop for a negative day count.\<close>

function year_backward :: "int \<Rightarrow> int \<Rightarrow> int \<times> int" where
  "year_backward year ds =
     (if ds < 0
      then year_backward (wrap_short (year - 1)) (ds + daysInYear (wrap_short (year - 1)))
      else (year, ds))"
  by pat_completeness auto
termination
  by (relation "measure (\<lambda>(year, ds). nat (- ds))") (auto simp: daysInYear_def)

text \<open>Lines 282--288, the month loop; \<^verbatim>\<open>daysInMonth\<close> throws once the month passes 11.\<close>

function month_walk :: "int \<Rightarrow> int \<Rightarrow> int \<Rightarrow> error + (int \<times> int)" where
  "month_walk year month ds =
     (case daysInMonth year month of
        Inl e \<Rightarrow> Inl e
      | Inr monthDays \<Rightarrow>
          if ds \<ge> monthDays then month_walk year (month + 1) (ds - monthDays)
          else Inr (month, ds))"
  by pat_completeness auto
termination
  by (relation "measure (\<lambda>(year, month, ds). nat (12 - month))")
     (auto simp: daysInMonth_def split: if_splits)

record DateTime =
  unix_str :: string
  years :: int
  months :: int
  dotw :: DOTW
  days :: int
  hours :: int
  minutes :: int
  seconds :: int
  timezoneOffset :: rat

definition parseUnix :: "int \<Rightarrow> rat \<Rightarrow> DateTime \<Rightarrow> error + DateTime" where
  "parseUnix unix tzOffset this =
     (let timezoneSeconds = timezoneSeconds_of tzOffset;
          adjustedUnix = wrap_ll (unix + timezoneSeconds);
          (ds0, remainderSeconds) = split_days adjustedUnix;
          (year, ds1) = (if ds0 \<ge> 0 then year_forward 1970 ds0 else year_backward 1970 ds0)
      in case month_walk year 0 ds1 of
           Inl e \<Rightarrow> Inl e
         | Inr (month, ds) \<Rightarrow>
             let hrs = remainderSeconds sdiv 3600;
                 rs = remainderSeconds smod 3600;
                 mins = rs sdiv 60;
                 secs = rs smod 60
             in case dotwByDate year (month + 1) (ds + 1) of
                  Inl e \<Rightarrow> Inl e
                | Inr w \<Rightarrow>
                    Inr (this\<lparr>years := year, months := month, days := ds, hours := hrs,
                              minutes := mins, seconds := secs, dotw := w\<rparr>))"

section \<open>Decimal text: \<^verbatim>\<open>std::stoll\<close>, \<^verbatim>\<open>std::strtoll\<close>, \<^verbatim>\<open>std::to_string\<close>\<close>

definition isspace_c :: "char \<Rightarrow> bool" where
  "isspace_c c \<longleftrightarrow> c = CHR '' '' \<or> (9 \<le> (of_char c :: nat) \<and> (of_char c :: nat) \<le> 13)"

definition isdigit_c :: "char \<Rightarrow> bool" where
  "isdigit_c c \<longleftrightarrow> 48 \<le> (of_char c :: nat) \<and> (of_char c :: nat) \<le> 57"

definition digit_val :: "char \<Rightarrow> int" where
  "digit_val c = int (of_char c) - 48"

fun digits_val :: "string \<Rightarrow> int \<Rightarrow> int" where
  "digits_val [] acc = acc"
| "digits_val (c # cs) acc = digits_val cs (acc * 10 + digit_val c)"

text \<open>
  The number \<^verbatim>\<open>strtoll(s, nullptr, 10)\<close> reads: leading white space, an optional sign,
  then the longest run of decimal digits; \<open>None\<close> when there is no digit. The value is
  not yet cut to \<^verbatim>\<open>long long\<close>.
\<close>

definition scan_integer :: "string \<Rightarrow> int option" where
  "scan_integer s =
     (let t = dropWhile isspace_c s;
          neg = (t \<noteq> [] \<and> hd t = CHR ''-'');
          u = (if t \<noteq> [] \<and> (hd t = CHR ''-'' \<or> hd t = CHR ''+'') then tl t else t);
          ds = takeWhile isdigit_c u
      in if ds = [] then None
         else Some (if neg then - digits_val ds 0 else digits_val ds 0))"

text \<open>\<^verbatim>\<open>std::stoll\<close>: no digit is \<^verbatim>\<open>invalid_argument\<close>, a value outside the type \<^verbatim>\<open>out_of_range\<close>.\<close>

definition stoll :: "string \<Rightarrow> error + int" where
  "stoll s =
     (case scan_integer s of
        None \<Rightarrow> Inl Invalid_argument
      | Some v \<Rightarrow> if v < LLONG_MIN \<or> v > LLONG_MAX then Inl Out_of_range else Inr v)"

text \<open>\<^verbatim>\<open>std::strtoll\<close> never throws: no digit is 0, a value outside the type is clamped.\<close>

definition strtoll :: "string \<Rightarrow> int" where
  "strtoll s =
     (case scan_integer s of
        None \<Rightarrow> 0
      | Some v \<Rightarrow> if v < LLONG_MIN then LLONG_MIN else if v > LLONG_MAX then LLONG_MAX else v)"

definition digit_char :: "nat \<Rightarrow> char" where
  "digit_char n = ''0123456789'' ! n"

fun digits :: "nat \<Rightarrow> string" where
  "digits n = (if n < 10 then [digit_char n] else digits (n div 10) @ [digit_char (n mod 10)])"

declare digits.simps [simp del]

text \<open>\<^verbatim>\<open>std::to_string\<close> of an \<^verbatim>\<open>int\<close> or a \<^verbatim>\<open>long long\<close>.\<close>

definition to_string_int :: "int \<Rightarrow> string" where
  "to_string_int n = (if n < 0 then CHR ''-'' # digits (nat (- n)) else digits (nat n))"

text \<open>
  \<^verbatim>\<open>std::to_string\<close> of a \<^verbatim>\<open>double\<close> prints as \<^verbatim>\<open>printf("%f")\<close> does (C++11 to C++23):
  the sign, the integer part, a point and six decimals, rounded to nearest with ties to
  even.
\<close>

definition to_string_double :: "rat \<Rightarrow> string" where
  "to_string_double x =
     (let scaled = round_half_even (\<bar>x\<bar> * 1000000);
          frac = digits (nat (scaled mod 1000000))
      in (if x < 0 then ''-'' else []) @ digits (nat (scaled div 1000000)) @ ''.''
           @ replicate (6 - length frac) CHR ''0'' @ frac)"

text \<open>
  The template \<^verbatim>\<open>padZeros\<close> at its two instances: \<^verbatim>\<open>int\<close> and \<^verbatim>\<open>unsigned char\<close>
  arguments reach \<^verbatim>\<open>std::to_string(int)\<close>, the \<^verbatim>\<open>double\<close> offset reaches
  \<^verbatim>\<open>std::to_string(double)\<close>.
\<close>

definition padZeros_int :: "int \<Rightarrow> string" where
  "padZeros_int num = (if num < 10 \<and> num \<ge> 0 then ''0'' else []) @ to_string_int num"

definition padZeros_double :: "rat \<Rightarrow> string" where
  "padZeros_double num = (if num < 10 \<and> num \<ge> 0 then ''0'' else []) @ to_string_double num"

section \<open>\<^verbatim>\<open>DateTimeFormat\<close>\<close>

text \<open>The field \<open>twelveHours\<close> is the member \<^verbatim>\<open>_12Hours\<close>.\<close>

record DateTimeFormat =
  delimiter :: char
  showDotw :: bool
  showTime :: bool
  showUTCoffset :: bool
  fillZeros :: bool
  alphabeticalMonth :: bool
  twelveHours :: bool
  fullNames :: bool
  order :: string

text \<open>\<^verbatim>\<open>std::tolower\<close> in the C locale.\<close>

definition tolower_c :: "char \<Rightarrow> char" where
  "tolower_c c =
     (if 65 \<le> (of_char c :: nat) \<and> (of_char c :: nat) \<le> 90
      then char_of ((of_char c :: nat) + 32) else c)"

definition toLowercase :: "string \<Rightarrow> string" where
  "toLowercase str = map tolower_c str"

definition removeAll_str :: "string \<Rightarrow> char \<Rightarrow> string" where
  "removeAll_str str token = filter (\<lambda>c. c \<noteq> token) str"

fun removeDuplicates_loop :: "string \<Rightarrow> char set \<Rightarrow> string \<Rightarrow> string" where
  "removeDuplicates_loop [] seen output = output"
| "removeDuplicates_loop (c # cs) seen output =
     (if c \<notin> seen then removeDuplicates_loop cs (insert c seen) (output @ [c])
      else removeDuplicates_loop cs seen output)"

definition removeDuplicates :: "string \<Rightarrow> string" where
  "removeDuplicates str = removeDuplicates_loop str {} []"

text \<open>The member initialisers of lines 56--58.\<close>

definition DateTimeFormat_members :: DateTimeFormat where
  "DateTimeFormat_members =
     \<lparr>delimiter = CHR ''/'', showDotw = False, showTime = False, showUTCoffset = False,
      fillZeros = False, alphabeticalMonth = False, twelveHours = False, fullNames = False,
      order = ''mdy''\<rparr>"

definition isOrderToken :: "char \<Rightarrow> bool" where
  "isOrderToken c \<longleftrightarrow> c = CHR ''d'' \<or> c = CHR ''m'' \<or> c = CHR ''y'' \<or> c = CHR ''a''"

text \<open>\<^verbatim>\<open>i + 1 &lt; newFormat.length() &amp;&amp; newFormat[i + 1] == token\<close>, on the text after position \<^verbatim>\<open>i\<close>.\<close>

definition next_is :: "string \<Rightarrow> char \<Rightarrow> bool" where
  "next_is rest token \<longleftrightarrow> (case rest of [] \<Rightarrow> False | c # _ \<Rightarrow> c = token)"

text \<open>
  The loop of lines 401--441. The first argument is \<^verbatim>\<open>newFormat\<close> from position
  \<^verbatim>\<open>i\<close> on, the second the local \<^verbatim>\<open>order\<close>, the third the object under construction.
\<close>

fun scan :: "string \<Rightarrow> string \<Rightarrow> DateTimeFormat \<Rightarrow> string \<times> DateTimeFormat" where
  "scan [] ord this = (ord, this)"
| "scan (token # rest) ord this =
     (if token = CHR ''w'' then
        scan rest ord
          (let this1 = this\<lparr>showDotw := True\<rparr>
           in if next_is rest CHR ''w'' then this1\<lparr>fullNames := True\<rparr> else this1)
      else if isOrderToken token then
        (let ord1 = ord @ [token];
             this1 = (if next_is rest token \<and> \<not> fillZeros this
                      then this\<lparr>fillZeros := True\<rparr> else this);
             this2 = (if length ord1 < 3 \<and> rest \<noteq> []
                      then this1\<lparr>delimiter := hd rest\<rparr> else this1);
             this3 = (if token = CHR ''a''
                      then this2\<lparr>alphabeticalMonth := True\<rparr> else this2)
         in scan rest ord1 this3)
      else if token = CHR ''h'' \<or> token = CHR ''i'' \<or> token = CHR ''s'' then
        scan rest ord
          (let this1 = this\<lparr>showTime := True\<rparr>
           in if next_is rest token \<and> \<not> fillZeros this1
              then this1\<lparr>fillZeros := True\<rparr> else this1)
      else if token = CHR ''_'' then scan rest ord (this\<lparr>twelveHours := True\<rparr>)
      else if token = CHR ''o'' then scan rest ord (this\<lparr>showUTCoffset := True\<rparr>)
      else scan rest ord this)"

text \<open>\<^verbatim>\<open>DateTimeFormat(const std::string&amp; format)\<close>, lines 383--447.\<close>

definition DateTimeFormat_parse :: "string \<Rightarrow> error + DateTimeFormat" where
  "DateTimeFormat_parse format =
     (let newFormat = removeAll_str (toLowercase format) CHR '' '';
          (ord, this) = scan newFormat [] DateTimeFormat_members;
          ord1 = removeDuplicates ord
      in if length ord1 \<noteq> 3 then Inl Runtime_error else Inr (this\<lparr>order := ord1\<rparr>))"


section \<open>\<^verbatim>\<open>DateTime\<close>: construction, rendering, division\<close>

text \<open>The member initialisers of lines 193--200 and of the constructor's initialiser list.\<close>

definition DateTime_members :: "string \<Rightarrow> rat \<Rightarrow> DateTime" where
  "DateTime_members unix tzOffset =
     \<lparr>unix_str = unix, years = 1970, months = 0, dotw = Thursday, days = 0, hours = 0,
      minutes = 0, seconds = 0, timezoneOffset = tzOffset\<rparr>"

text \<open>
  \<^verbatim>\<open>DateTime(const std::string&amp;, timezone_offset_t)\<close>: whatever is thrown inside the
  \<^verbatim>\<open>try\<close> block leaves as \<^verbatim>\<open>invalid_argument\<close>.
\<close>

definition DateTime_new :: "string \<Rightarrow> rat \<Rightarrow> error + DateTime" where
  "DateTime_new unix tzOffset =
     (case stoll unix of
        Inl e \<Rightarrow> Inl Invalid_argument
      | Inr n \<Rightarrow>
          (case parseUnix n tzOffset (DateTime_members unix tzOffset) of
             Inl e \<Rightarrow> Inl Invalid_argument
           | Inr this \<Rightarrow> Inr this))"

text \<open>\<^verbatim>\<open>DateTime(char*, timezone_offset_t)\<close> reads the text with \<^verbatim>\<open>std::strtoll\<close>.\<close>

definition DateTime_new_lit :: "string \<Rightarrow> rat \<Rightarrow> error + DateTime" where
  "DateTime_new_lit unix tzOffset =
     (case parseUnix (strtoll unix) tzOffset (DateTime_members unix tzOffset) of
        Inl e \<Rightarrow> Inl Invalid_argument
      | Inr this \<Rightarrow> Inr this)"

definition dotwStrMap :: "DOTW \<Rightarrow> string" where
  "dotwStrMap w =
     (case w of Sunday \<Rightarrow> ''Sunday'' | Monday \<Rightarrow> ''Monday'' | Tuesday \<Rightarrow> ''Tuesday''
      | Wednesday \<Rightarrow> ''Wednesday'' | Thursday \<Rightarrow> ''Thursday'' | Friday \<Rightarrow> ''Friday''
      | Saturday \<Rightarrow> ''Saturday'')"

definition month_names :: "string list" where
  "month_names =
     [''January'', ''February'', ''March'', ''April'', ''May'', ''June'', ''July'',
      ''August'', ''September'', ''October'', ''November'', ''December'']"

definition monthsStrMap :: "int \<Rightarrow> string option" where
  "monthsStrMap m = (if 0 \<le> m \<and> m \<le> 11 then Some (month_names ! nat m) else None)"

text \<open>The \<^verbatim>\<open>switch\<close> of lines 460--479: the text one character of the order adds.\<close>

definition render_field :: "DateTime \<Rightarrow> DateTimeFormat \<Rightarrow> char \<Rightarrow> error + string" where
  "render_field this format c =
     (if c = CHR ''d'' then
        Inr (if fillZeros format then padZeros_int (days this + 1)
             else to_string_int (days this + 1))
      else if c = CHR ''m'' then
        Inr (if fillZeros format then padZeros_int (months this + 1)
             else to_string_int (months this + 1))
      else if c = CHR ''a'' then
        (case monthsStrMap (months this) of
           None \<Rightarrow> Inl Out_of_range
         | Some name \<Rightarrow> Inr (if fullNames format then name else take 3 name))
      else if c = CHR ''y'' then Inr (to_string_int (years this))
      else Inr [])"

fun render_order :: "DateTime \<Rightarrow> DateTimeFormat \<Rightarrow> string \<Rightarrow> string \<Rightarrow> error + string" where
  "render_order this format [] result = Inr result"
| "render_order this format (c # cs) result =
     (case render_field this format c of
        Inl e \<Rightarrow> Inl e
      | Inr s \<Rightarrow> render_order this format cs (result @ s @ [delimiter format]))"

text \<open>Lines 484--504, the time section.\<close>

definition render_time :: "DateTime \<Rightarrow> DateTimeFormat \<Rightarrow> string" where
  "render_time this format =
     (let am = hours this < 12;
          h12 = hours this smod 12;
          hours12 = (if h12 = 0 then 12 else h12);
          shown = (if twelveHours format then hours12 else hours this);
          pad = (\<lambda>n. if fillZeros format then padZeros_int n else to_string_int n)
      in pad shown @ '':'' @ pad (minutes this) @ '':'' @ pad (seconds this) @ '' ''
           @ (if twelveHours format then (if am then ''AM '' else ''PM '') else []))"

text \<open>Lines 506--511, the offset section.\<close>

definition render_offset :: "DateTime \<Rightarrow> DateTimeFormat \<Rightarrow> string" where
  "render_offset this format =
     (let isPositive = timezoneOffset this \<ge> 0
      in (if isPositive then ''+'' else [])
           @ (if fillZeros format then padZeros_double (timezoneOffset this) @ '' UTC''
              else to_string_double (timezoneOffset this) @ '' UTC''))"

text \<open>
  \<^verbatim>\<open>DateTime::toString(const DateTimeFormat&amp;)\<close>. Line 482 writes to the last character
  of the result; on an empty result that is a write before the start of the string.
\<close>

definition toString :: "DateTime \<Rightarrow> DateTimeFormat \<Rightarrow> error + string" where
  "toString this format =
     (let r0 = (if showDotw format
                then (if fullNames format then dotwStrMap (dotw this) @ '', ''
                      else take 3 (dotwStrMap (dotw this)) @ '', '')
                else [])
      in case render_order this format (order format) r0 of
           Inl e \<Rightarrow> Inl e
         | Inr r1 \<Rightarrow>
             if r1 = [] then Inl Undefined_behaviour
             else
               let r2 = butlast r1 @ '' '';
                   r3 = (if showTime format then r2 @ render_time this format else r2);
                   r4 = (if showUTCoffset format then r3 @ render_offset this format else r3)
               in Inr r4)"

text \<open>\<^verbatim>\<open>DateTime::toString(const std::string&amp; format)\<close>, lines 544--546.\<close>

definition toString_str :: "DateTime \<Rightarrow> string \<Rightarrow> error + string" where
  "toString_str this format =
     (case DateTimeFormat_parse format of Inl e \<Rightarrow> Inl e | Inr f \<Rightarrow> toString this f)"

text \<open>
  \<^verbatim>\<open>DateTime::operator/\<close>, lines 602--604. The quotient is computed before the constructor
  is entered, outside its \<^verbatim>\<open>try\<close> block; a zero divisor, and \<^verbatim>\<open>LLONG_MIN / -1\<close>, are
  undefined in C++ and throw nothing. The left operand is read first here; C++ leaves
  the order of the two \<^verbatim>\<open>std::stoll\<close> calls open.
\<close>

definition op_div :: "DateTime \<Rightarrow> DateTime \<Rightarrow> error + DateTime" where
  "op_div this other =
     (case stoll (unix_str this) of
        Inl e \<Rightarrow> Inl e
      | Inr a \<Rightarrow>
          (case stoll (unix_str other) of
             Inl e \<Rightarrow> Inl e
           | Inr b \<Rightarrow>
               if b = 0 \<or> (a = LLONG_MIN \<and> b = - 1) then Inl Undefined_behaviour
               else DateTime_new (to_string_int (a sdiv b)) 0))"

section \<open>Reference definitions\<close>

text \<open>
  The definitions of this section are not in the header. They are the closed forms and
  the descriptions the properties below compare the code with.
\<close>

text \<open>Length of the 0-based month, and the days of the year before it.\<close>

definition month_len :: "int \<Rightarrow> nat \<Rightarrow> int" where
  "month_len y m = (if m = 1 \<and> isLeapYear y then 29 else days_table ! m)"

primrec days_before_month :: "int \<Rightarrow> nat \<Rightarrow> int" where
  "days_before_month y 0 = 0"
| "days_before_month y (Suc m) = days_before_month y m + month_len y m"

text \<open>Days from 1970-01-01 to the first of January of the year, in closed form.\<close>

definition days_before_year :: "int \<Rightarrow> int" where
  "days_before_year y =
     365 * (y - 1970) + ((y - 1) div 4 - (y - 1) div 100 + (y - 1) div 400) - 477"

text \<open>
  The epoch-day formula of the proleptic Gregorian calendar by eras of 400 years
  (146097 days) that begin on the first of March: the day number of the 1-based civil date
  \<open>y\<close>-\<open>m\<close>-\<open>d\<close>, with 1970-01-01 as day 0. It walks over no year and no month.
\<close>

definition days_from_civil :: "int \<Rightarrow> int \<Rightarrow> int \<Rightarrow> int" where
  "days_from_civil y m d =
     (let y1 = (if m \<le> 2 then y - 1 else y);
          era = y1 div 400;
          yoe = y1 - era * 400;
          doy = (153 * (if m > 2 then m - 3 else m + 9) + 2) div 5 + d - 1;
          doe = yoe * 365 + yoe div 4 - yoe div 100 + doy
      in era * 146097 + doe - 719468)"

text \<open>The epoch second count of the civil fields of a \<open>DateTime\<close> (0-based month and day).\<close>

definition encode_epoch :: "DateTime \<Rightarrow> int" where
  "encode_epoch dt =
     days_from_civil (years dt) (months dt + 1) (days dt + 1) * 86400
       + hours dt * 3600 + minutes dt * 60 + seconds dt"

text \<open>
  Zeller's congruence with floor division and the remainder of floor division, mapped to
  the index that counts Sunday as 0.
\<close>

definition zeller :: "int \<Rightarrow> int \<Rightarrow> int \<Rightarrow> int" where
  "zeller year month day =
     (let m = (if month < 3 then month + 12 else month);
          y = (if month < 3 then year - 1 else year);
          K = y mod 100;
          J = y div 100;
          h = (day + (13 * (m + 1)) div 5 + K + K div 4 + J div 4 + 5 * J) mod 7
      in (h - 1 + 7) mod 7)"

text \<open>A format string as the scanner sees it: lower case, spaces removed.\<close>

definition normalized :: "string \<Rightarrow> string" where
  "normalized format = removeAll_str (toLowercase format) CHR '' ''"

text \<open>Removal of duplicates that keeps the first occurrence of every element.\<close>

function first_occurrences :: "'a list \<Rightarrow> 'a list" where
  "first_occurrences [] = []"
| "first_occurrences (x # xs) = x # first_occurrences (filter (\<lambda>y. y \<noteq> x) xs)"
  by pat_completeness auto
termination
  by (relation "measure length") (auto simp: less_Suc_eq_le)

text \<open>
  For every occurrence of an order token, in order, the character right after it
  (\<open>None\<close> at the end of the text).
\<close>

fun order_followers :: "string \<Rightarrow> char option list" where
  "order_followers [] = []"
| "order_followers (c # rest) =
     (if isOrderToken c then [case rest of [] \<Rightarrow> None | n # _ \<Rightarrow> Some n] else [])
       @ order_followers rest"

text \<open>
  The characters captured after the first \<open>k\<close> occurrences of an order token; the last
  one wins, and \<open>dflt\<close> stays when there is none.
\<close>

definition captured :: "nat \<Rightarrow> char \<Rightarrow> string \<Rightarrow> char" where
  "captured k dflt s =
     (case List.map_filter id (take k (order_followers s)) of
        [] \<Rightarrow> dflt
      | c # cs \<Rightarrow> last (c # cs))"





section \<open>Calendar helpers: properties\<close>

lemma smod_eq_0_iff_dvd: "(k::int) smod n = 0 \<longleftrightarrow> n dvd k"
proof -
  have "k smod n = 0 \<longleftrightarrow> \<bar>k\<bar> mod \<bar>n\<bar> = 0"
    by (cases "k = 0") (simp_all add: signed_modulo_int_def sgn_if)
  also have "\<dots> \<longleftrightarrow> \<bar>n\<bar> dvd \<bar>k\<bar>"
    by (simp only: mod_eq_0_iff_dvd)
  also have "\<dots> \<longleftrightarrow> n dvd k"
    by simp
  finally show ?thesis .
qed

lemma sdiv_nonneg: "0 \<le> a \<Longrightarrow> 0 < b \<Longrightarrow> (a::int) sdiv b = a div b"
  by (simp add: signed_divide_int_def sgn_if)

lemma smod_nonneg: "0 \<le> a \<Longrightarrow> 0 < b \<Longrightarrow> (a::int) smod b = a mod b"
  by (simp add: signed_modulo_int_def sgn_if)

lemma sdiv_neg: "a < 0 \<Longrightarrow> 0 < b \<Longrightarrow> (a::int) sdiv b = - ((- a) div b)"
  by (simp add: signed_divide_int_def sgn_if)

lemma smod_neg: "a < 0 \<Longrightarrow> 0 < b \<Longrightarrow> (a::int) smod b = - ((- a) mod b)"
  by (simp add: signed_modulo_int_def sgn_if)

text \<open>The value \<^verbatim>\<open>dotwByDate\<close> casts to \<^verbatim>\<open>DOTW\<close> names one of the seven days.\<close>

lemma dotw_index_range:
  "0 \<le> (h smod 7 - 1 + 7) smod 7 \<and> (h smod 7 - 1 + 7) smod 7 \<le> 6" for h :: int
proof -
  have "h smod 7 \<in> {- \<bar>7\<bar> + 1..\<bar>7\<bar> - 1}"
    by (rule smod_int_range) simp
  then have "0 \<le> h smod 7 - 1 + 7"
    by simp
  then have "(h smod 7 - 1 + 7) smod 7 = (h smod 7 - 1 + 7) mod 7"
    by (rule smod_nonneg) simp
  moreover have "0 \<le> (h smod 7 - 1 + 7) mod 7" "(h smod 7 - 1 + 7) mod 7 < 7"
    by simp_all
  ultimately show ?thesis by simp
qed

lemma split_days_floor: "split_days a = (a div 86400, a mod 86400)"
proof (cases "0 \<le> a")
  case True
  then show ?thesis
    by (simp add: split_days_def Let_def sdiv_nonneg smod_nonneg)
next
  case False
  then have neg: "a < 0" by simp
  have d: "a sdiv 86400 = - ((- a) div 86400)" and m: "a smod 86400 = - ((- a) mod 86400)"
    using neg by (simp_all add: sdiv_neg smod_neg)
  show ?thesis
    unfolding split_days_def Let_def d m
    by (auto simp: zdiv_zminus1_eq_if zmod_zminus1_eq_if)
qed


lemma wrap_short_range: "- 32768 \<le> wrap_short x \<and> wrap_short x \<le> 32767"
  unfolding wrap_short_def by simp

lemma wrap_short_id: "- 32768 \<le> x \<Longrightarrow> x \<le> 32767 \<Longrightarrow> wrap_short x = x"
  unfolding wrap_short_def by simp

lemma daysInYear_pos: "365 \<le> daysInYear y \<and> daysInYear y \<le> 366"
  by (simp add: daysInYear_def)

lemma year_forward_range:
  "0 \<le> ds \<Longrightarrow> year_forward year ds = (y', d') \<Longrightarrow> 0 \<le> d' \<and> d' < daysInYear y'"
proof (induction year ds rule: year_forward.induct)
  case (1 year ds)
  show ?case
  proof (cases "ds \<ge> daysInYear year")
    case True
    with "1.prems" have r: "year_forward (wrap_short (year + 1)) (ds - daysInYear year) = (y', d')"
      by (simp add: year_forward.simps [of year ds])
    from True have "0 \<le> ds - daysInYear year" by simp
    from "1.IH" [OF True this r] show ?thesis .
  next
    case False
    with "1.prems" show ?thesis
      by (simp add: year_forward.simps [of year ds])
  qed
qed

lemma year_backward_range:
  "ds < daysInYear year \<Longrightarrow> year_backward year ds = (y', d') \<Longrightarrow> 0 \<le> d' \<and> d' < daysInYear y'"
proof (induction year ds rule: year_backward.induct)
  case (1 year ds)
  show ?case
  proof (cases "ds < 0")
    case True
    with "1.prems" have r:
      "year_backward (wrap_short (year - 1)) (ds + daysInYear (wrap_short (year - 1))) = (y', d')"
      by (simp add: year_backward.simps [of year ds])
    from True have "ds + daysInYear (wrap_short (year - 1)) < daysInYear (wrap_short (year - 1))"
      by simp
    from "1.IH" [OF True this r] show ?thesis .
  next
    case False
    with "1.prems" show ?thesis
      by (simp add: year_backward.simps [of year ds])
  qed
qed


lemma daysInMonth_month_len:
  "0 \<le> m \<Longrightarrow> m \<le> 11 \<Longrightarrow> daysInMonth y m = Inr (month_len y (nat m))"
  by (auto simp: daysInMonth_def month_len_def)

lemma days_before_month_12: "days_before_month y 12 = daysInYear y"
  by (simp add: eval_nat_numeral month_len_def days_table_def daysInYear_def)

lemma month_len_pos: "m \<le> 11 \<Longrightarrow> 0 < month_len y m"
proof -
  assume "m \<le> 11"
  then have "m = 0 \<or> m = 1 \<or> m = 2 \<or> m = 3 \<or> m = 4 \<or> m = 5 \<or> m = 6
      \<or> m = 7 \<or> m = 8 \<or> m = 9 \<or> m = 10 \<or> m = 11"
    by arith
  then show ?thesis
    by (elim disjE) (simp_all add: month_len_def days_table_def)
qed

lemma days_before_month_mono:
  "m \<le> n \<Longrightarrow> n \<le> 12 \<Longrightarrow> days_before_month y m \<le> days_before_month y n"
proof (induction n)
  case 0
  then show ?case by simp
next
  case (Suc n)
  show ?case
  proof (cases "m = Suc n")
    case True
    then show ?thesis by simp
  next
    case False
    with Suc.prems have "m \<le> n" "n \<le> 11" by simp_all
    with Suc.IH month_len_pos [of n y] show ?thesis by simp
  qed
qed

lemma month_walk_inv:
  "0 \<le> month \<Longrightarrow> month \<le> 11 \<Longrightarrow> 0 \<le> ds
   \<Longrightarrow> days_before_month year (nat month) + ds < daysInYear year
   \<Longrightarrow> \<exists>m d. month_walk year month ds = Inr (m, d) \<and> month \<le> m \<and> m \<le> 11 \<and> 0 \<le> d
        \<and> d < month_len year (nat m)
        \<and> days_before_month year (nat m) + d = days_before_month year (nat month) + ds"
proof (induction year month ds rule: month_walk.induct)
  case (1 year month ds)
  have dim: "daysInMonth year month = Inr (month_len year (nat month))"
    using "1.prems" by (simp add: daysInMonth_month_len)
  show ?case
  proof (cases "ds \<ge> month_len year (nat month)")
    case True
    have suc: "nat (month + 1) = Suc (nat month)"
      using "1.prems" by simp
    have step: "days_before_month year (nat (month + 1)) + (ds - month_len year (nat month))
          = days_before_month year (nat month) + ds"
      by (simp add: suc)
    have lt11: "month + 1 \<le> 11"
    proof (rule ccontr)
      assume "\<not> month + 1 \<le> 11"
      with "1.prems" have "month = 11" by simp
      then have "days_before_month year (nat (month + 1)) = daysInYear year"
        using days_before_month_12 [of year] by simp
      with step True "1.prems" show False by simp
    qed
    have "\<exists>m d. month_walk year (month + 1) (ds - month_len year (nat month)) = Inr (m, d)
        \<and> month + 1 \<le> m \<and> m \<le> 11 \<and> 0 \<le> d \<and> d < month_len year (nat m)
        \<and> days_before_month year (nat m) + d
            = days_before_month year (nat (month + 1)) + (ds - month_len year (nat month))"
      using "1.prems" True lt11 step
      by (intro "1.IH" [OF dim True]) simp_all
    then obtain m d where
      r: "month_walk year (month + 1) (ds - month_len year (nat month)) = Inr (m, d)"
      and b: "month + 1 \<le> m" "m \<le> 11" "0 \<le> d" "d < month_len year (nat m)"
      and e: "days_before_month year (nat m) + d
            = days_before_month year (nat (month + 1)) + (ds - month_len year (nat month))"
      by blast
    have "month_walk year month ds = Inr (m, d)"
      using r True by (simp add: month_walk.simps [of year month ds] dim)
    with b e step show ?thesis by simp
  next
    case False
    then have "month_walk year month ds = Inr (month, ds)"
      by (simp add: month_walk.simps [of year month ds] dim)
    with False "1.prems" show ?thesis by simp
  qed
qed


lemma isLeapYear_dvd: "isLeapYear y \<longleftrightarrow> 4 dvd y \<and> (\<not> 100 dvd y \<or> 400 dvd y)"
  by (simp add: isLeapYear_def smod_eq_0_iff_dvd)


lemma div_pred:
  assumes n: "0 < (n::int)"
  shows "y div n = (y - 1) div n + (if n dvd y then 1 else 0)"
proof -
  define q r where "q = y div n" and "r = y mod n"
  have y: "y = n * q + r" and r0: "0 \<le> r" and rn: "r < n"
    using n by (simp_all add: q_def r_def)
  show ?thesis
  proof (cases "r = 0")
    case True
    then have d: "n dvd y" using y by simp
    have "y - 1 = n * (q - 1) + (n - 1)"
      using y True by (simp add: algebra_simps)
    then have "(y - 1) div n = q - 1"
      by (rule int_div_pos_eq) (use n in simp_all)
    with d show ?thesis by (simp add: q_def)
  next
    case False
    then have d: "\<not> n dvd y"
      by (simp add: r_def dvd_eq_mod_eq_0)
    have "y - 1 = n * q + (r - 1)"
      using y by simp
    then have "(y - 1) div n = q"
      by (rule int_div_pos_eq) (use False r0 rn in simp_all)
    with d show ?thesis by (simp add: q_def)
  qed
qed

lemma days_before_year_Suc: "days_before_year (y + 1) = days_before_year y + daysInYear y"
proof -
  have a: "400 dvd y \<Longrightarrow> 100 dvd y"
    using dvd_trans [of 100 400 y] by simp
  have b: "100 dvd y \<Longrightarrow> 4 dvd y"
    using dvd_trans [of 4 100 y] by simp
  have d4: "y div 4 = (y - 1) div 4 + (if 4 dvd y then 1 else 0)"
    by (rule div_pred) simp
  have d100: "y div 100 = (y - 1) div 100 + (if 100 dvd y then 1 else 0)"
    by (rule div_pred) simp
  have d400: "y div 400 = (y - 1) div 400 + (if 400 dvd y then 1 else 0)"
    by (rule div_pred) simp
  have e: "days_before_year (y + 1)
      = 365 * (y - 1970) + 365 + (y div 4 - y div 100 + y div 400) - 477"
    by (simp add: days_before_year_def)
  show ?thesis
  proof (cases "4 dvd y")
    case False
    with a b have "\<not> 100 dvd y" "\<not> 400 dvd y" by blast+
    with False show ?thesis
      unfolding e d4 d100 d400 by (simp add: days_before_year_def daysInYear_def isLeapYear_dvd)
  next
    case four: True
    show ?thesis
    proof (cases "100 dvd y")
      case False
      with a have "\<not> 400 dvd y" by blast
      with four False show ?thesis
        unfolding e d4 d100 d400 by (simp add: days_before_year_def daysInYear_def isLeapYear_dvd)
    next
      case True
      with four show ?thesis
        unfolding e d4 d100 d400
        by (cases "400 dvd y") (simp_all add: days_before_year_def daysInYear_def isLeapYear_dvd)
    qed
  qed
qed

lemma days_before_year_add: "days_before_year a + 365 * int n \<le> days_before_year (a + int n)"
proof (induction n)
  case 0
  then show ?case by simp
next
  case (Suc n)
  have "a + int (Suc n) = (a + int n) + 1" by simp
  then have "days_before_year (a + int (Suc n))
      = days_before_year (a + int n) + daysInYear (a + int n)"
    by (simp only: days_before_year_Suc)
  with Suc daysInYear_pos [of "a + int n"] show ?case by simp
qed

lemma days_before_year_strict_mono:
  assumes "a < b"
  shows "days_before_year a < days_before_year b"
proof -
  have "b = a + int (nat (b - a))" using assms by simp
  then have "days_before_year a + 365 * int (nat (b - a)) \<le> days_before_year b"
    using days_before_year_add [of a "nat (b - a)"] by simp
  with assms show ?thesis by simp
qed

lemma days_before_year_1970: "days_before_year 1970 = 0"
  by (simp add: days_before_year_def)


lemma year_forward_inv:
  "0 \<le> ds \<Longrightarrow> - 32768 \<le> year
   \<Longrightarrow> days_before_year year + ds < days_before_year 32768
   \<Longrightarrow> year_forward year ds = (y', d')
   \<Longrightarrow> days_before_year y' + d' = days_before_year year + ds \<and> year \<le> y' \<and> y' \<le> 32767"
proof (induction year ds rule: year_forward.induct)
  case (1 year ds)
  have le: "year \<le> 32767"
  proof (rule ccontr)
    assume "\<not> year \<le> 32767"
    then have "32768 = year \<or> 32768 < year" by arith
    then have "days_before_year 32768 \<le> days_before_year year"
      using days_before_year_strict_mono [of 32768 year] by auto
    with "1.prems" show False by simp
  qed
  show ?case
  proof (cases "ds \<ge> daysInYear year")
    case True
    have e: "days_before_year (year + 1) + (ds - daysInYear year) = days_before_year year + ds"
      by (simp add: days_before_year_Suc)
    have lt: "year + 1 \<le> 32767"
    proof (rule ccontr)
      assume "\<not> year + 1 \<le> 32767"
      with le have "year + 1 = 32768" by simp
      with e True "1.prems" show False by simp
    qed
    have w: "wrap_short (year + 1) = year + 1"
      using lt "1.prems" by (simp add: wrap_short_id)
    have r: "year_forward (year + 1) (ds - daysInYear year) = (y', d')"
      using "1.prems" True w by (simp add: year_forward.simps [of year ds])
    have "days_before_year y' + d' = days_before_year (year + 1) + (ds - daysInYear year)
        \<and> year + 1 \<le> y' \<and> y' \<le> 32767"
      using "1.IH" [OF True, unfolded w] True "1.prems" e r by simp
    with e show ?thesis by simp
  next
    case False
    with "1.prems" le show ?thesis
      by (simp add: year_forward.simps [of year ds])
  qed
qed

lemma year_backward_inv:
  "year \<le> 32767 \<Longrightarrow> - 32768 \<le> year
   \<Longrightarrow> days_before_year (- 32768) \<le> days_before_year year + ds
   \<Longrightarrow> year_backward year ds = (y', d')
   \<Longrightarrow> days_before_year y' + d' = days_before_year year + ds \<and> y' \<le> year \<and> - 32768 \<le> y'"
proof (induction year ds rule: year_backward.induct)
  case (1 year ds)
  show ?case
  proof (cases "ds < 0")
    case True
    have gt: "- 32768 < year"
    proof (rule ccontr)
      assume "\<not> - 32768 < year"
      with "1.prems" have "year = - 32768" by simp
      with "1.prems" True show False by simp
    qed
    have w: "wrap_short (year - 1) = year - 1"
      using gt "1.prems" by (simp add: wrap_short_id)
    have e: "days_before_year (year - 1) + (ds + daysInYear (year - 1)) = days_before_year year + ds"
      using days_before_year_Suc [of "year - 1"] by simp
    have r: "year_backward (year - 1) (ds + daysInYear (year - 1)) = (y', d')"
      using "1.prems" True w by (simp add: year_backward.simps [of year ds])
    have "days_before_year y' + d' = days_before_year (year - 1) + (ds + daysInYear (year - 1))
        \<and> y' \<le> year - 1 \<and> - 32768 \<le> y'"
      using "1.IH" [OF True, unfolded w] "1.prems" gt e r by simp
    with e show ?thesis by simp
  next
    case False
    with "1.prems" show ?thesis
      by (simp add: year_backward.simps [of year ds])
  qed
qed

text \<open>The walk of lines 263--279 as a whole.\<close>

lemma year_walk_range:
  assumes "(if ds0 \<ge> 0 then year_forward 1970 ds0 else year_backward 1970 ds0) = (year, ds1)"
  shows "0 \<le> ds1 \<and> ds1 < daysInYear year"
proof (cases "ds0 \<ge> 0")
  case True
  with assms have "year_forward 1970 ds0 = (year, ds1)" by (simp only: if_True)
  from year_forward_range [OF True this] show ?thesis .
next
  case False
  then have lt: "ds0 < daysInYear 1970" using daysInYear_pos [of 1970] by simp
  from False assms have "year_backward 1970 ds0 = (year, ds1)" by (simp only: if_False)
  from year_backward_range [OF lt this] show ?thesis .
qed

lemma year_walk_inv:
  assumes "(if ds0 \<ge> 0 then year_forward 1970 ds0 else year_backward 1970 ds0) = (year, ds1)"
    and "days_before_year (- 32768) \<le> ds0" and "ds0 < days_before_year 32768"
  shows "days_before_year year + ds1 = ds0 \<and> - 32768 \<le> year \<and> year \<le> 32767"
proof (cases "ds0 \<ge> 0")
  case True
  with assms(1) have r: "year_forward 1970 ds0 = (year, ds1)" by (simp only: if_True)
  have a: "- 32768 \<le> (1970::int)" by simp
  have b: "days_before_year 1970 + ds0 < days_before_year 32768"
    using assms(3) by (simp only: days_before_year_1970 add_0)
  from year_forward_inv [OF True a b r] show ?thesis
    by (simp only: days_before_year_1970 add_0) simp
next
  case False
  with assms(1) have r: "year_backward 1970 ds0 = (year, ds1)" by (simp only: if_False)
  have a: "(1970::int) \<le> 32767" "- 32768 \<le> (1970::int)" by simp_all
  have b: "days_before_year (- 32768) \<le> days_before_year 1970 + ds0"
    using assms(2) by (simp only: days_before_year_1970 add_0)
  from year_backward_inv [OF a b r] show ?thesis
    by (simp only: days_before_year_1970 add_0) simp
qed

lemma dotwByDate_ok:
  assumes "0 \<le> m" "m \<le> 11" "0 \<le> d" "d < month_len y (nat m)"
  shows "\<exists>w. dotwByDate y (m + 1) (d + 1) = Inr w"
  using assms by (simp add: dotwByDate_def daysInMonth_month_len Let_def)

lemma parseUnix_eq:
  assumes "split_days (wrap_ll (unix + timezoneSeconds_of off)) = (ds0, rs)"
    and "(if ds0 \<ge> 0 then year_forward 1970 ds0 else year_backward 1970 ds0) = (year, ds1)"
    and "month_walk year 0 ds1 = Inr (month, ds)"
    and "dotwByDate year (month + 1) (ds + 1) = Inr w"
  shows "parseUnix unix off this =
    Inr (this\<lparr>years := year, months := month, days := ds, hours := rs sdiv 3600,
             minutes := (rs smod 3600) sdiv 60, seconds := (rs smod 3600) smod 60,
             dotw := w\<rparr>)"
  using assms by (simp add: parseUnix_def Let_def)

text \<open>Every run of \<open>parseUnix\<close> returns, with the fields it set described by the walks.\<close>

lemma parseUnix_result:
  obtains ds0 rs year ds1 month ds w where
    "split_days (wrap_ll (unix + timezoneSeconds_of off)) = (ds0, rs)"
    "(if ds0 \<ge> 0 then year_forward 1970 ds0 else year_backward 1970 ds0) = (year, ds1)"
    "0 \<le> ds1" "ds1 < daysInYear year"
    "month_walk year 0 ds1 = Inr (month, ds)"
    "0 \<le> month" "month \<le> 11" "0 \<le> ds" "ds < month_len year (nat month)"
    "days_before_month year (nat month) + ds = ds1"
    "dotwByDate year (month + 1) (ds + 1) = Inr w"
    "parseUnix unix off this =
      Inr (this\<lparr>years := year, months := month, days := ds, hours := rs sdiv 3600,
               minutes := (rs smod 3600) sdiv 60, seconds := (rs smod 3600) smod 60,
               dotw := w\<rparr>)"
proof -
  obtain ds0 rs where s: "split_days (wrap_ll (unix + timezoneSeconds_of off)) = (ds0, rs)"
    by (cases "split_days (wrap_ll (unix + timezoneSeconds_of off))")
  obtain year ds1 where
    y: "(if ds0 \<ge> 0 then year_forward 1970 ds0 else year_backward 1970 ds0) = (year, ds1)"
    by (cases "if ds0 \<ge> 0 then year_forward 1970 ds0 else year_backward 1970 ds0")
  have r: "0 \<le> ds1" "ds1 < daysInYear year"
    using year_walk_range [OF y] by simp_all
  have "\<exists>m d. month_walk year 0 ds1 = Inr (m, d) \<and> 0 \<le> m \<and> m \<le> 11 \<and> 0 \<le> d
        \<and> d < month_len year (nat m)
        \<and> days_before_month year (nat m) + d = days_before_month year (nat 0) + ds1"
    using r by (intro month_walk_inv) simp_all
  then obtain month ds where
    m: "month_walk year 0 ds1 = Inr (month, ds)" "0 \<le> month" "month \<le> 11" "0 \<le> ds"
      "ds < month_len year (nat month)" "days_before_month year (nat month) + ds = ds1"
    by auto
  obtain w where w: "dotwByDate year (month + 1) (ds + 1) = Inr w"
    using dotwByDate_ok [OF m(2) m(3) m(4) m(5)] by blast
  show thesis
    using that [OF s y r m w parseUnix_eq [OF s y m(1) w]] .
qed

lemma hms:
  assumes "0 \<le> (rs::int)" "rs < 86400"
  shows "rs sdiv 3600 * 3600 + (rs smod 3600) sdiv 60 * 60 + (rs smod 3600) smod 60 = rs"
    and "0 \<le> rs sdiv 3600" and "rs sdiv 3600 < 24"
    and "0 \<le> (rs smod 3600) sdiv 60" and "(rs smod 3600) sdiv 60 < 60"
    and "0 \<le> (rs smod 3600) smod 60" and "(rs smod 3600) smod 60 < 60"
proof -
  have a: "rs sdiv 3600 = rs div 3600" "rs smod 3600 = rs mod 3600"
    using assms by (simp_all add: sdiv_nonneg smod_nonneg)
  have b: "(rs mod 3600) sdiv 60 = (rs mod 3600) div 60"
    "(rs mod 3600) smod 60 = (rs mod 3600) mod 60"
    by (simp_all add: sdiv_nonneg smod_nonneg)
  show "rs sdiv 3600 * 3600 + (rs smod 3600) sdiv 60 * 60 + (rs smod 3600) smod 60 = rs"
    unfolding a b by simp
  show "0 \<le> rs sdiv 3600"
    unfolding a using assms by (simp add: pos_imp_zdiv_nonneg_iff)
  show "rs sdiv 3600 < 24"
    unfolding a using assms by linarith
  show "0 \<le> (rs smod 3600) sdiv 60"
    unfolding a b by (simp add: pos_imp_zdiv_nonneg_iff)
  have "rs mod 3600 < 3600" by simp
  then show "(rs smod 3600) sdiv 60 < 60"
    unfolding a b by linarith
  show "0 \<le> (rs smod 3600) smod 60" "(rs smod 3600) smod 60 < 60"
    unfolding a b by simp_all
qed

lemma leap_count_step:
  "y div 4 - y div 100 + y div 400
     = (y - 1) div 4 - (y - 1) div 100 + (y - 1) div 400 + (if isLeapYear y then 1 else 0)"
  using days_before_year_Suc [of y]
  by (simp add: days_before_year_def daysInYear_def split: if_splits)

lemma era_div4: "(x - x div 400 * 400) div 4 = x div 4 - 100 * (x div 400)" for x :: int
proof -
  have "x - x div 400 * 400 = x + 4 * (- 100 * (x div 400))" by simp
  then show ?thesis by (simp add: div_mult_self2 [of 4 x "- 100 * (x div 400)"])
qed

lemma era_div100: "(x - x div 400 * 400) div 100 = x div 100 - 4 * (x div 400)" for x :: int
proof -
  have "x - x div 400 * 400 = x + 100 * (- 4 * (x div 400))" by simp
  then show ?thesis by (simp add: div_mult_self2 [of 100 x "- 4 * (x div 400)"])
qed

lemma days_from_civil_closed:
  "days_from_civil y m d =
     (let y1 = (if m \<le> 2 then y - 1 else y)
      in 365 * y1 + (y1 div 4 - y1 div 100 + y1 div 400)
           + (153 * (if m > 2 then m - 3 else m + 9) + 2) div 5 + d - 1 - 719468)"
  unfolding days_from_civil_def Let_def era_div4 era_div100
  by (simp add: algebra_simps)

lemma days_before_year_alt:
  "days_before_year y = 365 * y + ((y - 1) div 4 - (y - 1) div 100 + (y - 1) div 400) - 719527"
  by (simp add: days_before_year_def)

lemma days_from_civil_walk:
  assumes "1 \<le> m" "m \<le> 12"
  shows "days_from_civil y m d = days_before_year y + days_before_month y (nat (m - 1)) + (d - 1)"
proof -
  have "m = 1 \<or> m = 2 \<or> m = 3 \<or> m = 4 \<or> m = 5 \<or> m = 6 \<or> m = 7 \<or> m = 8 \<or> m = 9
      \<or> m = 10 \<or> m = 11 \<or> m = 12"
    using assms by arith
  then show ?thesis
    unfolding days_from_civil_closed days_before_year_alt Let_def
    by (elim disjE)
       (simp_all add: eval_nat_numeral month_len_def days_table_def leap_count_step [of y])
qed

lemma wrap_ll_id: "LLONG_MIN \<le> x \<Longrightarrow> x \<le> LLONG_MAX \<Longrightarrow> wrap_ll x = x"
  unfolding wrap_ll_def LLONG_MIN_def LLONG_MAX_def by simp

lemma timezoneSeconds_of_0: "timezoneSeconds_of 0 = 0"
  by (simp add: timezoneSeconds_of_def round_double_def trunc_rat_def LLONG_MIN_def
      LLONG_MAX_def)

lemma parseUnix_encode:
  assumes "days_before_year (- 32768) \<le> wrap_ll (unix + timezoneSeconds_of off) div 86400"
    and "wrap_ll (unix + timezoneSeconds_of off) div 86400 < days_before_year 32768"
  shows "\<exists>dt. parseUnix unix off this = Inr dt
    \<and> encode_epoch dt = wrap_ll (unix + timezoneSeconds_of off)"
proof -
  define a where "a = wrap_ll (unix + timezoneSeconds_of off)"
  obtain ds0 rs year ds1 month ds w where
    s: "split_days (wrap_ll (unix + timezoneSeconds_of off)) = (ds0, rs)"
    and y: "(if ds0 \<ge> 0 then year_forward 1970 ds0 else year_backward 1970 ds0) = (year, ds1)"
    and m: "0 \<le> month" "month \<le> 11" "days_before_month year (nat month) + ds = ds1"
    and p: "parseUnix unix off this =
      Inr (this\<lparr>years := year, months := month, days := ds, hours := rs sdiv 3600,
               minutes := (rs smod 3600) sdiv 60, seconds := (rs smod 3600) smod 60,
               dotw := w\<rparr>)"
    by (rule parseUnix_result [of unix off this])
  have ds0: "ds0 = a div 86400" and rs: "rs = a mod 86400"
    using s by (simp_all add: split_days_floor a_def)
  have rr: "0 \<le> rs" "rs < 86400" by (simp_all add: rs)
  have yi: "days_before_year year + ds1 = ds0"
    using year_walk_inv [OF y] assms by (simp add: ds0 a_def)
  have c: "days_from_civil year (month + 1) (ds + 1) = ds0"
    using days_from_civil_walk [of "month + 1" year "ds + 1"] m yi by simp
  have "encode_epoch (this\<lparr>years := year, months := month, days := ds, hours := rs sdiv 3600,
               minutes := (rs smod 3600) sdiv 60, seconds := (rs smod 3600) smod 60,
               dotw := w\<rparr>) = ds0 * 86400 + rs"
    using hms(1) [OF rr] by (simp add: encode_epoch_def c)
  also have "\<dots> = a" by (simp add: ds0 rs)
  finally show ?thesis using p by (simp add: a_def)
qed

lemma days_before_year_bounds:
  "days_before_year (- 32768) = - 12687794" "days_before_year 32768 = 11248738"
  by (simp_all add: days_before_year_def)

text \<open>
  C6. \<open>isLeapYear\<close> holds exactly for the years divisible by 4 and not by 100, or divisible by
  400. The C++ remainder of a negative year is negative or zero, and it is zero exactly
  when the year is a multiple, so zero and negative years follow the same rule.
\<close>

theorem isLeapYear_iff:
  "isLeapYear year \<longleftrightarrow> 4 dvd year \<and> (\<not> 100 dvd year \<or> 400 dvd year)"
  by (simp add: isLeapYear_def smod_eq_0_iff_dvd)

theorem isLeapYear_iff_witness:
  "isLeapYear 0 \<and> \<not> isLeapYear 1900 \<and> isLeapYear 2000 \<and> isLeapYear 1972
   \<and> \<not> isLeapYear 2100 \<and> isLeapYear (- 4) \<and> \<not> isLeapYear (- 100) \<and> isLeapYear (- 400)"
  using isLeapYear_iff [of 0] isLeapYear_iff [of 1900] isLeapYear_iff [of 2000]
    isLeapYear_iff [of 1972] isLeapYear_iff [of 2100] isLeapYear_iff [of "- 4"]
    isLeapYear_iff [of "- 100"] isLeapYear_iff [of "- 400"]
  by simp

section \<open>The epoch conversion\<close>

text \<open>
  The conversion at the lower end of the range of claim C1, computed: 1653-02-10,
  06:13:20, a Monday, and the epoch-day formula gives the epoch back.
\<close>

lemma roundtrip_example:
  "parseUnix (- 10000000000) 0 (DateTime_members ''-10000000000'' 0) =
     Inr \<lparr>unix_str = ''-10000000000'', years = 1653, months = 1, dotw = Monday, days = 9,
          hours = 6, minutes = 13, seconds = 20, timezoneOffset = 0\<rparr>
   \<and> encode_epoch \<lparr>unix_str = ''-10000000000'', years = 1653, months = 1, dotw = Monday,
          days = 9, hours = 6, minutes = 13, seconds = 20, timezoneOffset = 0\<rparr>
       = - 10000000000"
  by code_simp

text \<open>
  C1. For every epoch \<open>e\<close> from -10,000,000,000 to 10,000,000,000 and the offset 0,
  \<open>parseUnix\<close> returns, and the year, month, day, hour, minute and second it stores,
  encoded again with the epoch-day formula \<open>days_from_civil\<close> (which involves no walk over
  years or months), give exactly \<open>e\<close>.
\<close>

theorem parseUnix_roundtrip:
  assumes "- 10000000000 \<le> e" and "e \<le> 10000000000"
  shows "\<exists>dt. parseUnix e 0 this = Inr dt \<and> encode_epoch dt = e"
proof -
  have w: "wrap_ll (e + timezoneSeconds_of 0) = e"
    using assms by (simp add: timezoneSeconds_of_0 wrap_ll_id LLONG_MIN_def LLONG_MAX_def)
  have "days_before_year (- 32768) \<le> e div 86400" "e div 86400 < days_before_year 32768"
    unfolding days_before_year_bounds using assms by linarith+
  with parseUnix_encode [of e 0 this] w show ?thesis by simp
qed

theorem parseUnix_roundtrip_witness:
  "(- 10000000000 \<le> (- 10000000000 :: int) \<and> (- 10000000000 :: int) \<le> 10000000000)
   \<and> (\<exists>dt. parseUnix (- 10000000000) 0 (DateTime_members ''-10000000000'' 0) = Inr dt
          \<and> encode_epoch dt = - 10000000000)"
  using parseUnix_roundtrip [of "- 10000000000" "DateTime_members ''-10000000000'' 0"]
  by simp

text \<open>
  C3. For every epoch and every offset the conversion returns: the two year loops and
  the month loop are total functions (their termination is proved where they are
  defined), no exception leaves \<open>parseUnix\<close>, and the month it stores lies in 0..11 and
  the day in 0..\<open>daysInMonth\<close> - 1 of the stored year and month. The statement holds for
  every integer epoch, so for every 64-bit one, also where the \<^verbatim>\<open>short\<close> year wraps.
\<close>

theorem parseUnix_terminates_in_range:
  "\<exists>dt n. parseUnix unix off this = Inr dt \<and> 0 \<le> months dt \<and> months dt \<le> 11
     \<and> daysInMonth (years dt) (months dt) = Inr n \<and> 0 \<le> days dt \<and> days dt < n"
proof -
  obtain ds0 rs year ds1 month ds w where
    m: "0 \<le> month" "month \<le> 11" "0 \<le> ds" "ds < month_len year (nat month)"
    and p: "parseUnix unix off this =
      Inr (this\<lparr>years := year, months := month, days := ds, hours := rs sdiv 3600,
               minutes := (rs smod 3600) sdiv 60, seconds := (rs smod 3600) smod 60,
               dotw := w\<rparr>)"
    by (rule parseUnix_result [of unix off this])
  from m p show ?thesis
    by (simp add: daysInMonth_month_len)
qed

theorem parseUnix_terminates_in_range_witness:
  "\<exists>dt n. parseUnix LLONG_MAX (11 / 2) (DateTime_members ''9223372036854775807'' (11 / 2)) = Inr dt
     \<and> 0 \<le> months dt \<and> months dt \<le> 11
     \<and> daysInMonth (years dt) (months dt) = Inr n \<and> 0 \<le> days dt \<and> days dt < n"
  by (rule parseUnix_terminates_in_range)

text \<open>
  C4. The split of the adjusted epoch \<open>a\<close> into days and seconds of the day is floor
  division: the pair is \<open>(a div 86400, a mod 86400)\<close>, the seconds lie in 0..86399, and a
  negative truncated remainder is corrected by adding 86400 and taking one day off. In
  \<open>parseUnix\<close> the hour, minute and second are derived from that remainder of the adjusted
  epoch, and recompose to it.
\<close>

theorem split_days_floor_division:
  "split_days a = (a div 86400, a mod 86400)
   \<and> 0 \<le> snd (split_days a) \<and> snd (split_days a) < 86400
   \<and> (a smod 86400 < 0 \<longrightarrow> split_days a = (a sdiv 86400 - 1, a smod 86400 + 86400))
   \<and> (\<exists>dt. parseUnix unix off this = Inr dt
         \<and> hours dt * 3600 + minutes dt * 60 + seconds dt
              = snd (split_days (wrap_ll (unix + timezoneSeconds_of off)))
         \<and> 0 \<le> hours dt \<and> hours dt < 24 \<and> 0 \<le> minutes dt \<and> minutes dt < 60
         \<and> 0 \<le> seconds dt \<and> seconds dt < 60)"
proof -
  have 1: "split_days a = (a div 86400, a mod 86400)"
    by (rule split_days_floor)
  have 2: "0 \<le> snd (split_days a)" "snd (split_days a) < 86400"
    by (simp_all add: split_days_floor)
  have 3: "a smod 86400 < 0 \<longrightarrow> split_days a = (a sdiv 86400 - 1, a smod 86400 + 86400)"
    by (simp add: split_days_def Let_def)
  obtain ds0 rs year ds1 month ds w where
    s: "split_days (wrap_ll (unix + timezoneSeconds_of off)) = (ds0, rs)"
    and p: "parseUnix unix off this =
      Inr (this\<lparr>years := year, months := month, days := ds, hours := rs sdiv 3600,
               minutes := (rs smod 3600) sdiv 60, seconds := (rs smod 3600) smod 60,
               dotw := w\<rparr>)"
    by (rule parseUnix_result [of unix off this])
  have "rs = wrap_ll (unix + timezoneSeconds_of off) mod 86400"
    using s by (simp add: split_days_floor)
  then have rr: "0 \<le> rs" "rs < 86400"
    by simp_all
  have 4: "\<exists>dt. parseUnix unix off this = Inr dt
         \<and> hours dt * 3600 + minutes dt * 60 + seconds dt
              = snd (split_days (wrap_ll (unix + timezoneSeconds_of off)))
         \<and> 0 \<le> hours dt \<and> hours dt < 24 \<and> 0 \<le> minutes dt \<and> minutes dt < 60
         \<and> 0 \<le> seconds dt \<and> seconds dt < 60"
    using hms [OF rr] by (simp add: p s)
  from 1 2 3 4 show ?thesis by blast
qed

theorem split_days_floor_division_witness:
  "- 1 smod 86400 < (0::int)
   \<and> split_days (- 1) = (- 1, 86399)
   \<and> (\<exists>dt. parseUnix (- 1) 0 (DateTime_members ''-1'' 0) = Inr dt
         \<and> hours dt * 3600 + minutes dt * 60 + seconds dt = 86399)"
proof -
  have h: "- 1 smod 86400 < (0::int)"
    by (simp add: signed_modulo_int_def)
  have w: "wrap_ll (- 1 + timezoneSeconds_of 0) = - 1"
    by (simp add: timezoneSeconds_of_0 wrap_ll_def)
  have s: "split_days (- 1) = (- 1, 86399)"
    by (simp add: split_days_floor)
  from split_days_floor_division [of "- 1" "- 1" 0 "DateTime_members ''-1'' 0"] h w s
  show ?thesis by auto
qed

section \<open>The day of the week\<close>

text \<open>
  From March of the year 0 on (the year of the congruence, after the shift of January
  and February, is not negative) the truncating operators of C++ agree with floor
  division, and \<open>dotwByDate\<close> is Zeller's congruence.
\<close>

lemma dotwByDate_eq_zeller:
  assumes mo: "1 \<le> month" "month \<le> 12"
    and dy: "1 \<le> day" "day \<le> month_len year (nat (month - 1))"
    and yr: "0 \<le> (if month < 3 then year - 1 else year)"
  shows "dotwByDate year month day = Inr (DOTW_of_int (zeller year month day))"
proof -
  define m where "m = (if month < 3 then month + 12 else month)"
  define y where "y = (if month < 3 then year - 1 else year)"
  define K where "K = y mod 100"
  define J where "J = y div 100"
  define t where "t = day + (13 * (m + 1)) div 5 + K + K div 4 + J div 4 + 5 * J"
  have y0: "0 \<le> y" using yr by (simp add: y_def)
  have m0: "0 \<le> 13 * (m + 1)" using mo by (simp add: m_def)
  have K0: "0 \<le> K" by (simp add: K_def)
  have J0: "0 \<le> J" using y0 by (simp add: J_def pos_imp_zdiv_nonneg_iff)
  have K4: "0 \<le> K div 4" using K0 by (simp add: pos_imp_zdiv_nonneg_iff)
  have J4: "0 \<le> J div 4" using J0 by (simp add: pos_imp_zdiv_nonneg_iff)
  have m5: "0 \<le> (13 * (m + 1)) div 5" using m0 by (simp add: pos_imp_zdiv_nonneg_iff)
  have t0: "0 \<le> t" using dy(1) m5 K0 K4 J4 J0 by (simp add: t_def)
  have h0: "0 \<le> t mod 7 - 1 + 7"
  proof -
    have "0 \<le> t mod 7" by simp
    then show ?thesis by linarith
  qed
  have sK: "y smod 100 = K" and sJ: "y sdiv 100 = J"
    using y0 by (simp_all add: K_def J_def sdiv_nonneg smod_nonneg)
  have st: "day + (13 * (m + 1)) sdiv 5 + K + K sdiv 4 + J sdiv 4 + 5 * J = t"
    using m0 K0 J0 by (simp add: t_def sdiv_nonneg)
  have sh: "t smod 7 = t mod 7"
    using t0 by (simp add: smod_nonneg)
  have sr: "(t mod 7 - 1 + 7) smod 7 = (t mod 7 - 1 + 7) mod 7"
    using h0 by (rule smod_nonneg) simp
  have dim: "daysInMonth year (month - 1) = Inr (month_len year (nat (month - 1)))"
    using mo by (simp add: daysInMonth_month_len)
  have c1: "\<not> (month < 1 \<or> month > 12)" using mo by simp
  have c2: "\<not> (day < 1 \<or> day > month_len year (nat (month - 1)))" using dy by simp
  have code: "dotwByDate year month day = Inr (DOTW_of_int ((t mod 7 - 1 + 7) smod 7))"
    unfolding dotwByDate_def Let_def dim
    by (simp only: c1 c2 if_False sum.simps m_def [symmetric] y_def [symmetric] sK sJ st sh)
  have ref: "zeller year month day = (t mod 7 - 1 + 7) mod 7"
    unfolding zeller_def Let_def
    by (simp only: m_def [symmetric] y_def [symmetric] K_def [symmetric] J_def [symmetric]
        t_def [symmetric])
  show ?thesis
    by (simp only: code ref sr)
qed

text \<open>1970-01-01 is a Thursday, 2000-01-01 a Saturday, 1600-02-29 a Tuesday.\<close>

lemma dotwByDate_examples:
  "dotwByDate 1970 1 1 = Inr Thursday \<and> dotwByDate 2000 1 1 = Inr Saturday
   \<and> dotwByDate 1600 2 29 = Inr Tuesday"
  by code_simp

text \<open>
  The two epochs one day apart that the conversion places on the 29th of February and
  the first of March of the year 0: it gives both the same day of the week.
\<close>

lemma year_zero_reached:
  "DateTime_new ''-62162121600'' 0 =
     Inr \<lparr>unix_str = ''-62162121600'', years = 0, months = 1, dotw = Wednesday, days = 28,
          hours = 0, minutes = 0, seconds = 0, timezoneOffset = 0\<rparr>
   \<and> DateTime_new ''-62162035200'' 0 =
     Inr \<lparr>unix_str = ''-62162035200'', years = 0, months = 2, dotw = Wednesday, days = 0,
          hours = 0, minutes = 0, seconds = 0, timezoneOffset = 0\<rparr>"
  by code_simp

text \<open>
  C5. The claim is that \<open>dotwByDate\<close> is Zeller's congruence with floor divisions for every
  year. The header writes the congruence with \<^verbatim>\<open>%\<close> and \<^verbatim>\<open>/\<close>, which truncate, and for
  a negative year of the congruence the two differ: for the 29th of February of the year 0
  (January and February count in the year -1) the header answers Wednesday, the congruence
  Tuesday, and the header gives the day after, the first of March, Wednesday again.
\<close>

theorem dotwByDate_year_zero:
  "dotwByDate 0 2 29 = Inr Wednesday \<and> DOTW_of_int (zeller 0 2 29) = Tuesday
   \<and> dotwByDate 0 3 1 = Inr Wednesday \<and> DOTW_of_int (zeller 0 3 1) = Wednesday"
  by code_simp

section \<open>Rendering\<close>

text \<open>
  C2. The claim is that epoch text \<open>0\<close> with offset 0 renders in the default format as
  \<open>Thu, 01/01/1970 00:00:00 +00 UTC\<close>, which is also what the comments of lines 48--53
  and 179 of the header give. The header passes the \<^verbatim>\<open>double\<close> offset to \<^verbatim>\<open>padZeros\<close>,
  so the offset is printed by \<^verbatim>\<open>std::to_string(double)\<close>, with six decimals.
\<close>

theorem toString_default_epoch_zero:
  "DateTime_new ''0'' 0 =
     Inr \<lparr>unix_str = ''0'', years = 1970, months = 0, dotw = Thursday, days = 0,
          hours = 0, minutes = 0, seconds = 0, timezoneOffset = 0\<rparr>
   \<and> toString_str
         \<lparr>unix_str = ''0'', years = 1970, months = 0, dotw = Thursday, days = 0,
          hours = 0, minutes = 0, seconds = 0, timezoneOffset = 0\<rparr>
         ''W, DD/MM/YY, HH:II:SS O UTC''
       = Inr ''Thu, 01/01/1970 00:00:00 +00.000000 UTC''"
  by code_simp

section \<open>The format parser\<close>

text \<open>
  The loop that removes duplicates keeps the first occurrence of every character; the
  scanner appends every order token to the working order and nothing else.
\<close>

lemma first_occurrences_set: "set (first_occurrences xs) = set xs"
proof (induction xs rule: first_occurrences.induct)
  case 1
  then show ?case by simp
next
  case (2 x xs)
  then show ?case by auto
qed

lemma first_occurrences_distinct: "distinct (first_occurrences xs)"
proof (induction xs rule: first_occurrences.induct)
  case 1
  then show ?case by simp
next
  case (2 x xs)
  then show ?case by (simp add: first_occurrences_set)
qed

lemma removeDuplicates_loop_eq:
  "removeDuplicates_loop cs seen out
     = out @ first_occurrences (filter (\<lambda>c. c \<notin> seen) cs)"
proof (induction cs arbitrary: seen out)
  case Nil
  then show ?case by simp
next
  case (Cons c cs)
  have f: "filter (\<lambda>y. y \<noteq> c) (filter (\<lambda>x. x \<notin> seen) cs)
      = filter (\<lambda>x. x \<notin> insert c seen) cs"
    by (induction cs) auto
  show ?case
  proof (cases "c \<in> seen")
    case True
    then show ?thesis by (simp add: Cons.IH)
  next
    case False
    then have "removeDuplicates_loop (c # cs) seen out
        = out @ c # first_occurrences (filter (\<lambda>x. x \<notin> insert c seen) cs)"
      by (simp only: removeDuplicates_loop.simps if_True not_False_eq_True Cons.IH
          append_assoc append_Cons append_Nil)
    also have "\<dots> = out @ first_occurrences (filter (\<lambda>c. c \<notin> seen) (c # cs))"
      using False
      by (simp only: filter.simps if_True not_False_eq_True first_occurrences.simps f)
    finally show ?thesis .
  qed
qed

lemma removeDuplicates_eq: "removeDuplicates str = first_occurrences str"
  by (simp add: removeDuplicates_def removeDuplicates_loop_eq)

lemma isOrderToken_simps:
  "\<not> isOrderToken CHR ''w''" "isOrderToken CHR ''a''"
  by (simp_all add: isOrderToken_def)

lemma scan_order: "fst (scan s ord this) = ord @ filter isOrderToken s"
proof (induction s arbitrary: ord this)
  case Nil
  then show ?case by simp
next
  case (Cons token rest)
  show ?case
  proof (cases "token = CHR ''w''")
    case True
    then show ?thesis by (simp add: Cons.IH isOrderToken_simps)
  next
    case nw: False
    show ?thesis
    proof (cases "isOrderToken token")
      case True
      with nw show ?thesis by (simp add: Cons.IH Let_def)
    next
      case False
      with nw show ?thesis by (simp add: Cons.IH)
    qed
  qed
qed


lemma captured_0: "captured 0 d s = d"
  by (simp add: captured_def List.map_filter_simps)

lemma captured_Nil: "captured k d [] = d"
  by (simp add: captured_def List.map_filter_simps)

lemma captured_other: "\<not> isOrderToken c \<Longrightarrow> captured k d (c # rest) = captured k d rest"
  by (simp add: captured_def)

lemma captured_order_end: "isOrderToken c \<Longrightarrow> captured k d [c] = d"
  by (cases k) (simp_all add: captured_def List.map_filter_simps)

lemma captured_order:
  "isOrderToken c \<Longrightarrow> captured (Suc k) d (c # n # rest) = captured k n (n # rest)"
  by (simp add: captured_def List.map_filter_simps split: list.splits)

lemma scan_delimiter:
  "delimiter (snd (scan s ord this)) = captured (2 - length ord) (delimiter this) s"
proof (induction s arbitrary: ord this)
  case Nil
  then show ?case by (simp add: captured_Nil)
next
  case (Cons token rest)
  show ?case
  proof (cases "isOrderToken token")
    case False
    then show ?thesis
      by (simp add: Cons.IH captured_other Let_def)
  next
    case True
    then have nw: "token \<noteq> CHR ''w''" by (auto simp: isOrderToken_def)
    show ?thesis
    proof (cases "length ord < 2")
      case False
      then have k: "2 - length ord = 0" "2 - Suc (length ord) = 0" by simp_all
      from False True nw show ?thesis
        by (simp add: Cons.IH Let_def k captured_0)
    next
      case short: True
      then obtain k where k: "2 - length ord = Suc k" "2 - Suc (length ord) = k"
        by (cases "2 - length ord") auto
      show ?thesis
      proof (cases rest)
        case Nil
        with short True nw show ?thesis
          by (simp add: Let_def captured_order_end)
      next
        case rest: (Cons n rest')
        define this3 where "this3 =
          (let this1 = (if next_is rest token \<and> \<not> fillZeros this
                        then this\<lparr>fillZeros := True\<rparr> else this);
               this2 = this1\<lparr>delimiter := n\<rparr>
           in if token = CHR ''a'' then this2\<lparr>alphabeticalMonth := True\<rparr> else this2)"
        have d3: "delimiter this3 = n"
          by (simp add: this3_def Let_def)
        have ne: "rest \<noteq> []" "hd rest = n" using rest by simp_all
        have l3: "length (ord @ [token]) < 3" using short by simp
        have step: "scan (token # rest) ord this = scan rest (ord @ [token]) this3"
          unfolding this3_def scan.simps Let_def
          by (simp only: nw True l3 ne if_True if_False simp_thms)
        have "delimiter (snd (scan (token # rest) ord this)) = captured k n rest"
          unfolding step Cons.IH [of "ord @ [token]" this3] d3 using k(2) by simp
        also have "\<dots> = captured (2 - length ord) (delimiter this) (token # rest)"
          unfolding k(1) rest using True by (simp only: captured_order)
        finally show ?thesis .
      qed
    qed
  qed
qed








lemma DateTimeFormat_parse_unfold:
  "DateTimeFormat_parse format =
     (if length (first_occurrences (filter isOrderToken (normalized format))) \<noteq> 3
      then Inl Runtime_error
      else Inr (snd (scan (normalized format) [] DateTimeFormat_members)
                  \<lparr>order := first_occurrences (filter isOrderToken (normalized format))\<rparr>))"
proof -
  obtain ord this where s: "scan (normalized format) [] DateTimeFormat_members = (ord, this)"
    by (cases "scan (normalized format) [] DateTimeFormat_members")
  have "ord = filter isOrderToken (normalized format)"
    using scan_order [of "normalized format" "[]" DateTimeFormat_members] s by simp
  with s show ?thesis
    by (simp add: DateTimeFormat_parse_def Let_def normalized_def [symmetric] removeDuplicates_eq)
qed

text \<open>
  C7. Parsing a format string fails exactly when the order tokens \<open>d\<close>, \<open>m\<close>, \<open>y\<close>, \<open>a\<close>
  of the normalized string, with duplicates removed and first occurrences kept, are
  not exactly 3 characters; the failure is then the \<^verbatim>\<open>std::runtime_error\<close> of line 445
  (the error the specification calls InvalidFormat), and no other error leaves the
  parser. When parsing succeeds, the order of the result is those 3 distinct characters
  in the order of their first occurrence.
\<close>

theorem DateTimeFormat_parse_order:
  "(DateTimeFormat_parse format = Inl Runtime_error
      \<longleftrightarrow> length (first_occurrences (filter isOrderToken (normalized format))) \<noteq> 3)
   \<and> (\<forall>e. DateTimeFormat_parse format = Inl e \<longrightarrow> e = Runtime_error)
   \<and> (\<forall>f. DateTimeFormat_parse format = Inr f \<longrightarrow>
         order f = first_occurrences (filter isOrderToken (normalized format))
         \<and> length (order f) = 3 \<and> distinct (order f)
         \<and> set (order f) \<subseteq> {CHR ''d'', CHR ''m'', CHR ''y'', CHR ''a''})"
proof -
  have sub: "set (first_occurrences (filter isOrderToken (normalized format)))
      \<subseteq> {CHR ''d'', CHR ''m'', CHR ''y'', CHR ''a''}"
    by (auto simp: first_occurrences_set isOrderToken_def)
  show ?thesis
    unfolding DateTimeFormat_parse_unfold
    using sub by (auto simp: first_occurrences_distinct)
qed

theorem DateTimeFormat_parse_order_witness:
  "DateTimeFormat_parse ''mm-dd-yyyy'' =
     Inr \<lparr>delimiter = CHR ''-'', showDotw = False, showTime = False, showUTCoffset = False,
          fillZeros = True, alphabeticalMonth = False, twelveHours = False,
          fullNames = False, order = ''mdy''\<rparr>
   \<and> first_occurrences (filter isOrderToken (normalized ''mm-dd-yyyy'')) = ''mdy''
   \<and> length (first_occurrences (filter isOrderToken (normalized ''DD/MM''))) \<noteq> 3
   \<and> DateTimeFormat_parse ''DD/MM'' = Inl Runtime_error"
proof -
  have p: "DateTimeFormat_parse ''mm-dd-yyyy'' =
     Inr \<lparr>delimiter = CHR ''-'', showDotw = False, showTime = False, showUTCoffset = False,
          fillZeros = True, alphabeticalMonth = False, twelveHours = False,
          fullNames = False, order = ''mdy''\<rparr>"
    by code_simp
  have n: "length (first_occurrences (filter isOrderToken (normalized ''DD/MM''))) \<noteq> 3"
    by code_simp
  from DateTimeFormat_parse_order [of "''mm-dd-yyyy''"] p
  have a: "first_occurrences (filter isOrderToken (normalized ''mm-dd-yyyy'')) = ''mdy''"
    by simp
  from DateTimeFormat_parse_order [of "''DD/MM''"] n
  have b: "DateTimeFormat_parse ''DD/MM'' = Inl Runtime_error"
    by blast
  from p a n b show ?thesis by blast
qed

text \<open>
  C8. On the normalized string the scanner takes as delimiter the character right after
  each of the first two occurrences of an order token, where there is one; the later one
  wins, and the delimiter stays \<open>/\<close> when none is taken. So does the delimiter of every
  parsed format. Parsing \<open>mm-dd-yyyy\<close> gives the order month, day, year, the delimiter
  \<open>-\<close> and zero padding, and shows neither time nor offset nor day of the week.
\<close>

theorem DateTimeFormat_parse_delimiter:
  "delimiter (snd (scan (normalized format) [] DateTimeFormat_members))
      = captured 2 CHR ''/'' (normalized format)
   \<and> (\<forall>f. DateTimeFormat_parse format = Inr f \<longrightarrow>
          delimiter f = captured 2 CHR ''/'' (normalized format))
   \<and> (List.map_filter id (take 2 (order_followers (normalized format))) = [] \<longrightarrow>
          delimiter (snd (scan (normalized format) [] DateTimeFormat_members)) = CHR ''/'')
   \<and> DateTimeFormat_parse ''mm-dd-yyyy'' =
       Inr \<lparr>delimiter = CHR ''-'', showDotw = False, showTime = False, showUTCoffset = False,
            fillZeros = True, alphabeticalMonth = False, twelveHours = False,
            fullNames = False, order = ''mdy''\<rparr>"
proof -
  have 1: "delimiter (snd (scan (normalized format) [] DateTimeFormat_members))
      = captured 2 CHR ''/'' (normalized format)"
    using scan_delimiter [of "normalized format" "[]" DateTimeFormat_members]
    by (simp add: DateTimeFormat_members_def)
  have 2: "\<forall>f. DateTimeFormat_parse format = Inr f \<longrightarrow>
          delimiter f = captured 2 CHR ''/'' (normalized format)"
    unfolding DateTimeFormat_parse_unfold using 1 by (auto split: if_splits)
  have 3: "List.map_filter id (take 2 (order_followers (normalized format))) = [] \<longrightarrow>
          delimiter (snd (scan (normalized format) [] DateTimeFormat_members)) = CHR ''/''"
    unfolding 1 by (simp add: captured_def)
  have 4: "DateTimeFormat_parse ''mm-dd-yyyy'' =
       Inr \<lparr>delimiter = CHR ''-'', showDotw = False, showTime = False, showUTCoffset = False,
            fillZeros = True, alphabeticalMonth = False, twelveHours = False,
            fullNames = False, order = ''mdy''\<rparr>"
    by code_simp
  from 1 2 3 4 show ?thesis by blast
qed

theorem DateTimeFormat_parse_delimiter_witness:
  "captured 2 CHR ''/'' (normalized ''DD.MM.YY'') = CHR ''.''
   \<and> (\<exists>f. DateTimeFormat_parse ''DD.MM.YY'' = Inr f \<and> delimiter f = CHR ''.'')
   \<and> List.map_filter id (take 2 (order_followers (normalized ''y''))) = []
   \<and> delimiter (snd (scan (normalized ''y'') [] DateTimeFormat_members)) = CHR ''/''"
proof -
  have c: "captured 2 CHR ''/'' (normalized ''DD.MM.YY'') = CHR ''.''"
    by code_simp
  have p: "DateTimeFormat_parse ''DD.MM.YY'' =
       Inr \<lparr>delimiter = CHR ''.'', showDotw = False, showTime = False, showUTCoffset = False,
            fillZeros = True, alphabeticalMonth = False, twelveHours = False,
            fullNames = False, order = ''dmy''\<rparr>"
    by code_simp
  have e: "List.map_filter id (take 2 (order_followers (normalized ''y''))) = []"
    by code_simp
  from DateTimeFormat_parse_delimiter [of "''DD.MM.YY''"] p c
  have a: "\<exists>f. DateTimeFormat_parse ''DD.MM.YY'' = Inr f \<and> delimiter f = CHR ''.''"
    by simp
  from DateTimeFormat_parse_delimiter [of "''y''"] e
  have b: "delimiter (snd (scan (normalized ''y'') [] DateTimeFormat_members)) = CHR ''/''"
    by blast
  from c a e b show ?thesis by blast
qed








section \<open>Division of two \<open>DateTime\<close> values\<close>

text \<open>
  \<^verbatim>\<open>std::to_string\<close> writes an integer that \<^verbatim>\<open>std::stoll\<close> reads back, the constructor
  succeeds on every text \<^verbatim>\<open>std::stoll\<close> accepts, and the quotient of two 64-bit values
  is a 64-bit value except for \<^verbatim>\<open>LLONG_MIN / -1\<close>.
\<close>

lemma digit_char_facts:
  assumes "k < 10"
  shows "isdigit_c (digit_char k)" and "digit_val (digit_char k) = int k"
    and "\<not> isspace_c (digit_char k)" and "digit_char k \<noteq> CHR ''-''"
    and "digit_char k \<noteq> CHR ''+''"
proof -
  have "k = 0 \<or> k = 1 \<or> k = 2 \<or> k = 3 \<or> k = 4 \<or> k = 5 \<or> k = 6 \<or> k = 7 \<or> k = 8 \<or> k = 9"
    using assms by arith
  then show "isdigit_c (digit_char k)" and "digit_val (digit_char k) = int k"
    and "\<not> isspace_c (digit_char k)" and "digit_char k \<noteq> CHR ''-''"
    and "digit_char k \<noteq> CHR ''+''"
    by (auto simp: digit_char_def isdigit_c_def digit_val_def isspace_c_def)
qed

lemma digits_nonempty: "digits n \<noteq> []"
  by (subst digits.simps) simp

lemma digits_all_digit: "c \<in> set (digits n) \<Longrightarrow> isdigit_c c"
proof (induction n arbitrary: c rule: digits.induct)
  case (1 n)
  show ?case
  proof (cases "n < 10")
    case True
    with "1.prems" show ?thesis
      by (simp add: digits.simps [of n] digit_char_facts)
  next
    case False
    then have "n mod 10 < 10" by simp
    with False "1.prems" "1.IH" show ?thesis
      by (auto simp: digits.simps [of n] digit_char_facts)
  qed
qed

lemma digits_val_append: "digits_val (xs @ ys) acc = digits_val ys (digits_val xs acc)"
  by (induction xs arbitrary: acc) simp_all

lemma digits_val_digits: "digits_val (digits n) 0 = int n"
proof (induction n rule: digits.induct)
  case (1 n)
  show ?case
  proof (cases "n < 10")
    case True
    then show ?thesis
      by (simp add: digits.simps [of n] digit_char_facts)
  next
    case False
    then have m: "n mod 10 < 10" by simp
    have "digits_val (digits n) 0
        = digits_val [digit_char (n mod 10)] (digits_val (digits (n div 10)) 0)"
      using False by (simp add: digits.simps [of n] digits_val_append)
    also have "\<dots> = int (n div 10) * 10 + int (n mod 10)"
      using "1.IH" [OF False] by (simp add: digit_char_facts(2) [OF m])
    also have "\<dots> = int n"
      by (simp add: zdiv_int zmod_int)
    finally show ?thesis .
  qed
qed

lemma digits_hd: "\<exists>c cs. digits n = c # cs \<and> isdigit_c c"
  using digits_nonempty [of n] digits_all_digit [of _ n]
  by (cases "digits n") auto

lemma isdigit_not_other:
  assumes "isdigit_c c"
  shows "\<not> isspace_c c" and "c \<noteq> CHR ''-''" and "c \<noteq> CHR ''+''"
  using assms by (auto simp: isdigit_c_def isspace_c_def)

lemma scan_integer_digits: "scan_integer (digits n) = Some (int n)"
proof -
  obtain c cs where d: "digits n = c # cs" and c: "isdigit_c c"
    using digits_hd by blast
  have tw: "takeWhile isdigit_c (digits n) = digits n"
    by (simp add: takeWhile_eq_all_conv digits_all_digit)
  have "dropWhile isspace_c (digits n) = digits n"
    using isdigit_not_other(1) [OF c] by (simp add: d)
  then show ?thesis
    using isdigit_not_other(2,3) [OF c] tw d digits_val_digits [of n]
    by (simp add: scan_integer_def Let_def)
qed

lemma scan_integer_minus_digits: "scan_integer (CHR ''-'' # digits n) = Some (- int n)"
proof -
  have tw: "takeWhile isdigit_c (digits n) = digits n"
    by (simp add: takeWhile_eq_all_conv digits_all_digit)
  have sp: "\<not> isspace_c CHR ''-''"
    by (simp add: isspace_c_def)
  show ?thesis
    by (simp add: scan_integer_def Let_def sp tw digits_nonempty digits_val_digits)
qed

lemma stoll_to_string_int:
  assumes "LLONG_MIN \<le> n" "n \<le> LLONG_MAX"
  shows "stoll (to_string_int n) = Inr n"
proof (cases "n < 0")
  case True
  then have "scan_integer (to_string_int n) = Some n"
    by (simp add: to_string_int_def scan_integer_minus_digits)
  with assms show ?thesis by (simp add: stoll_def)
next
  case False
  then have "scan_integer (to_string_int n) = Some n"
    by (simp add: to_string_int_def scan_integer_digits)
  with assms show ?thesis by (simp add: stoll_def)
qed

lemma stoll_range: "stoll s = Inr n \<Longrightarrow> LLONG_MIN \<le> n \<and> n \<le> LLONG_MAX"
  by (auto simp: stoll_def split: option.splits if_splits)

lemma DateTime_new_ok:
  assumes "stoll s = Inr n"
  shows "\<exists>d. DateTime_new s off = Inr d \<and> unix_str d = s \<and> timezoneOffset d = off"
proof -
  obtain ds0 rs year ds1 month ds w where
    p: "parseUnix n off (DateTime_members s off) =
      Inr ((DateTime_members s off)\<lparr>years := year, months := month, days := ds,
               hours := rs sdiv 3600, minutes := (rs smod 3600) sdiv 60,
               seconds := (rs smod 3600) smod 60, dotw := w\<rparr>)"
    by (rule parseUnix_result [of n off "DateTime_members s off"])
  have "DateTime_new s off =
      Inr ((DateTime_members s off)\<lparr>years := year, months := month, days := ds,
               hours := rs sdiv 3600, minutes := (rs smod 3600) sdiv 60,
               seconds := (rs smod 3600) smod 60, dotw := w\<rparr>)"
    by (simp add: DateTime_new_def assms p)
  then show ?thesis
    by (simp add: DateTime_members_def)
qed

lemma sdiv_in_range:
  assumes x: "LLONG_MIN \<le> x" "x \<le> LLONG_MAX" and y: "y \<noteq> 0"
    and o: "\<not> (x = LLONG_MIN \<and> y = - 1)"
  shows "LLONG_MIN \<le> x sdiv y \<and> x sdiv y \<le> LLONG_MAX"
proof -
  have r: "- \<bar>x\<bar> \<le> x sdiv y" "x sdiv y \<le> \<bar>x\<bar>"
    using sdiv_int_range [of x y] by simp_all
  show ?thesis
  proof (cases "x = LLONG_MIN")
    case False
    with x have "\<bar>x\<bar> \<le> LLONG_MAX"
      by (simp add: LLONG_MIN_def LLONG_MAX_def)
    with r x show ?thesis
      by (simp add: LLONG_MIN_def LLONG_MAX_def)
  next
    case True
    with o have y1: "y \<noteq> - 1" by simp
    have lo: "LLONG_MIN \<le> x sdiv y"
      using r(1) True by (simp add: LLONG_MIN_def)
    have hi: "x sdiv y \<le> LLONG_MAX"
    proof (cases "0 < y")
      case True
      then have "x sdiv y = - (\<bar>x\<bar> div y)"
        using \<open>x = LLONG_MIN\<close> by (simp add: signed_divide_int_def LLONG_MIN_def sgn_if)
      moreover have "0 \<le> \<bar>x\<bar> div y"
        using True by (simp add: pos_imp_zdiv_nonneg_iff)
      ultimately show ?thesis by (simp add: LLONG_MAX_def)
    next
      case False
      with y y1 have y2: "2 \<le> - y" by simp
      have "x sdiv y = \<bar>x\<bar> div (- y)"
        using \<open>x = LLONG_MIN\<close> False y
        by (simp add: signed_divide_int_def LLONG_MIN_def sgn_if)
      also have "\<dots> \<le> \<bar>x\<bar> div 2"
        using y2 by (intro zdiv_mono2) simp_all
      also have "\<dots> \<le> LLONG_MAX"
        using \<open>x = LLONG_MIN\<close> by (simp add: LLONG_MIN_def LLONG_MAX_def)
      finally show ?thesis .
    qed
    from lo hi show ?thesis by simp
  qed
qed


text \<open>
  C9, as stated, says that dividing by a \<open>DateTime\<close> of epoch 0 fails with a domain error.
  The header has no check of the divisor and throws nothing there: the operator divides
  two \<^verbatim>\<open>long long\<close> values, and for the divisor 0 that division is undefined in C++.
  \<open>DateTime(epoch=10) / DateTime(epoch=0)\<close> is not a domain error.
\<close>

theorem op_div_zero_divisor:
  "DateTime_new ''10'' 0 =
     Inr \<lparr>unix_str = ''10'', years = 1970, months = 0, dotw = Thursday, days = 0,
          hours = 0, minutes = 0, seconds = 10, timezoneOffset = 0\<rparr>
   \<and> DateTime_new ''0'' 0 =
     Inr \<lparr>unix_str = ''0'', years = 1970, months = 0, dotw = Thursday, days = 0,
          hours = 0, minutes = 0, seconds = 0, timezoneOffset = 0\<rparr>
   \<and> op_div
        \<lparr>unix_str = ''10'', years = 1970, months = 0, dotw = Thursday, days = 0,
          hours = 0, minutes = 0, seconds = 10, timezoneOffset = 0\<rparr>
        \<lparr>unix_str = ''0'', years = 1970, months = 0, dotw = Thursday, days = 0,
          hours = 0, minutes = 0, seconds = 0, timezoneOffset = 0\<rparr>
       \<noteq> Inl Domain_error"
proof -
  have a: "DateTime_new ''10'' 0 =
     Inr \<lparr>unix_str = ''10'', years = 1970, months = 0, dotw = Thursday, days = 0,
          hours = 0, minutes = 0, seconds = 10, timezoneOffset = 0\<rparr>"
    by code_simp
  have b: "DateTime_new ''0'' 0 =
     Inr \<lparr>unix_str = ''0'', years = 1970, months = 0, dotw = Thursday, days = 0,
          hours = 0, minutes = 0, seconds = 0, timezoneOffset = 0\<rparr>"
    by code_simp
  have c: "op_div
        \<lparr>unix_str = ''10'', years = 1970, months = 0, dotw = Thursday, days = 0,
          hours = 0, minutes = 0, seconds = 10, timezoneOffset = 0\<rparr>
        \<lparr>unix_str = ''0'', years = 1970, months = 0, dotw = Thursday, days = 0,
          hours = 0, minutes = 0, seconds = 0, timezoneOffset = 0\<rparr>
       = Inl Undefined_behaviour"
    by code_simp
  from a b c show ?thesis by simp
qed

text \<open>
  C9, amended. For two \<open>DateTime\<close> values whose stored epoch texts read as the 64-bit
  integers \<open>a\<close> and \<open>b\<close>: when \<open>b\<close> is 0 the division is undefined and no exception
  is thrown; when \<open>b\<close> is not 0, and the quotient is not \<^verbatim>\<open>LLONG_MIN / -1\<close>, the operator
  returns the \<open>DateTime\<close> constructed from the decimal text of the truncated quotient with
  the offset 0, and that construction succeeds.
\<close>

theorem op_div_quotient:
  assumes a: "stoll (unix_str this) = Inr a" and b: "stoll (unix_str other) = Inr b"
  shows "(b = 0 \<longrightarrow> op_div this other = Inl Undefined_behaviour)
    \<and> (b \<noteq> 0 \<and> \<not> (a = LLONG_MIN \<and> b = - 1) \<longrightarrow>
         op_div this other = DateTime_new (to_string_int (a sdiv b)) 0
         \<and> (\<exists>d. op_div this other = Inr d \<and> unix_str d = to_string_int (a sdiv b)
                \<and> stoll (unix_str d) = Inr (a sdiv b) \<and> timezoneOffset d = 0))"
proof -
  have z: "b = 0 \<longrightarrow> op_div this other = Inl Undefined_behaviour"
    by (simp add: op_div_def a b)
  have q: "op_div this other = DateTime_new (to_string_int (a sdiv b)) 0
         \<and> (\<exists>d. op_div this other = Inr d \<and> unix_str d = to_string_int (a sdiv b)
                \<and> stoll (unix_str d) = Inr (a sdiv b) \<and> timezoneOffset d = 0)"
    if nz: "b \<noteq> 0" and no: "\<not> (a = LLONG_MIN \<and> b = - 1)"
  proof -
    have cnd: "\<not> (b = 0 \<or> (a = LLONG_MIN \<and> b = - 1))"
      using nz no by blast
    have e: "op_div this other = DateTime_new (to_string_int (a sdiv b)) 0"
      by (simp only: op_div_def a b sum.simps cnd if_False)
    have r: "LLONG_MIN \<le> a sdiv b \<and> a sdiv b \<le> LLONG_MAX"
      using stoll_range [OF a] nz no by (intro sdiv_in_range) simp_all
    then have s: "stoll (to_string_int (a sdiv b)) = Inr (a sdiv b)"
      by (simp add: stoll_to_string_int)
    from DateTime_new_ok [OF s, of 0] e s show ?thesis
      by auto
  qed
  from z q show ?thesis by blast
qed

theorem op_div_quotient_witness:
  "stoll ''100'' = Inr 100 \<and> stoll ''-7'' = Inr (- 7) \<and> stoll ''0'' = Inr 0
   \<and> op_div (DateTime_members ''100'' 0) (DateTime_members ''-7'' 0)
       = DateTime_new ''-14'' 0
   \<and> (\<exists>d. op_div (DateTime_members ''100'' 0) (DateTime_members ''-7'' 0) = Inr d
          \<and> unix_str d = ''-14'' \<and> timezoneOffset d = 0)
   \<and> op_div (DateTime_members ''100'' 0) (DateTime_members ''0'' 0) = Inl Undefined_behaviour"
proof -
  have a0: "stoll ''100'' = Inr 100" and b0: "stoll ''-7'' = Inr (- 7)"
    and c0: "stoll ''0'' = Inr 0"
    by code_simp+
  have a: "stoll (unix_str (DateTime_members ''100'' 0)) = Inr 100"
    and b: "stoll (unix_str (DateTime_members ''-7'' 0)) = Inr (- 7)"
    and c: "stoll (unix_str (DateTime_members ''0'' 0)) = Inr 0"
    by (simp_all add: DateTime_members_def a0 b0 c0)
  have t: "to_string_int (100 sdiv - 7) = ''-14''"
    by code_simp
  have n: "(- 7 :: int) \<noteq> 0 \<and> \<not> ((100 :: int) = LLONG_MIN \<and> (- 7 :: int) = - 1)"
    by (simp add: LLONG_MIN_def)
  from op_div_quotient [OF a b] n
  have e: "op_div (DateTime_members ''100'' 0) (DateTime_members ''-7'' 0)
       = DateTime_new (to_string_int (100 sdiv - 7)) 0"
    by blast
  from op_div_quotient [OF a b] n
  obtain d where d: "op_div (DateTime_members ''100'' 0) (DateTime_members ''-7'' 0) = Inr d"
    "unix_str d = to_string_int (100 sdiv - 7)" "timezoneOffset d = 0"
    by blast
  have 1: "op_div (DateTime_members ''100'' 0) (DateTime_members ''-7'' 0)
       = DateTime_new ''-14'' 0
     \<and> (\<exists>d. op_div (DateTime_members ''100'' 0) (DateTime_members ''-7'' 0) = Inr d
          \<and> unix_str d = ''-14'' \<and> timezoneOffset d = 0)"
    using e d unfolding t by blast
  from op_div_quotient [OF a c]
  have 2: "op_div (DateTime_members ''100'' 0) (DateTime_members ''0'' 0)
      = Inl Undefined_behaviour"
    by simp
  from a0 b0 c0 1 2 show ?thesis
    by blast
qed

end
